theory Spec2Isabelle
  imports Main "HOL-Library.Sublist"
begin

section \<open>The IR handled by LocalOpts.cpp\<close>

text \<open>
  The pass works on LLVM's in-memory IR. The part of it that LocalOpts.cpp reads and
  mutates is modelled here:
  \<^item> an \<open>APInt\<close> is a bit width and an unsigned value below \<open>2 ^ width\<close>;
  \<^item> a \<open>Value\<close> is an integer constant, the result of an instruction (referred to by
    the instruction's handle, which stands for the object's address) or anything else
    (an argument, a global, a constant that is no \<open>ConstantInt\<close>);
  \<^item> an instruction is a \<open>BinaryOperator\<close> (LLVM's class with exactly two operands,
    which every Add, Sub, Mul, SDiv, Shl, LShr, ... is) or some other instruction with
    an opcode number and a list of operands;
  \<^item> a basic block is the list of its instructions, a function the list of its blocks,
    a module the list of its functions.
  The use-list of a value is not stored: it is read off the operands of the function's
  instructions (results of instructions are only used inside their function), most
  recent use first.
  LLVM aborts on a failed assertion; a function that can hit one returns \<open>None\<close> there.
\<close>

type_synonym ident = nat

type_synonym apint = "nat \<times> nat"

datatype val =
    ConstantInt nat nat
  | Inst ident
  | Argument nat

datatype binop = Add | Sub | Mul | SDiv | Shl | LShr | OtherBinary nat

datatype instruction =
    BinaryOperator ident binop val val
  | OtherInst ident nat "val list"

type_synonym basic_block = "instruction list"
type_synonym func = "basic_block list"
type_synonym module_ir = "func list"

fun handle :: "instruction \<Rightarrow> ident" where
  "handle (BinaryOperator n opc a b) = n"
| "handle (OtherInst n opc ops) = n"

fun operands :: "instruction \<Rightarrow> val list" where
  "operands (BinaryOperator n opc a b) = [a, b]"
| "operands (OtherInst n opc ops) = ops"

fun isBinaryOp :: "instruction \<Rightarrow> bool" where
  "isBinaryOp (BinaryOperator n opc a b) = True"
| "isBinaryOp (OtherInst n opc ops) = False"

subsection \<open>APInt\<close>

text \<open>\<open>APInt::isPowerOf2\<close>: exactly one bit is set.\<close>

fun pow2 :: "nat \<Rightarrow> bool" where
  "pow2 n = (if n < 2 then n = 1 else even n \<and> pow2 (n div 2))"

declare pow2.simps [simp del]

definition isPowerOf2 :: "apint \<Rightarrow> bool" where
  "isPowerOf2 C = pow2 (snd C)"

text \<open>\<open>APInt::logBase2\<close>: the index of the highest set bit.\<close>

fun logBase2 :: "nat \<Rightarrow> nat" where
  "logBase2 n = (if n < 2 then 0 else Suc (logBase2 (n div 2)))"

declare logBase2.simps [simp del]

text \<open>\<open>APInt::exactLogBase2\<close>: \<open>-1\<close> when the value is no power of two.\<close>

definition exactLogBase2 :: "apint \<Rightarrow> int" where
  "exactLogBase2 C = (if isPowerOf2 C then int (logBase2 (snd C)) else - 1)"

text \<open>\<open>APInt - uint64_t\<close> and \<open>APInt + uint64_t\<close>: arithmetic modulo \<open>2 ^ width\<close>.\<close>

definition apint_sub :: "apint \<Rightarrow> nat \<Rightarrow> apint" where
  "apint_sub C k = (fst C, (snd C + 2 ^ fst C - k mod 2 ^ fst C) mod 2 ^ fst C)"

definition apint_add :: "apint \<Rightarrow> nat \<Rightarrow> apint" where
  "apint_add C k = (fst C, (snd C + k) mod 2 ^ fst C)"

text \<open>
  \<open>ConstantInt::get(Type, uint64_t)\<close> applied to the \<open>int32_t\<close> that \<open>exactLogBase2\<close>
  returns: the argument is converted to 64 bits unsigned, then cut to the type's width.
\<close>

definition ConstantInt_get :: "nat \<Rightarrow> int \<Rightarrow> val" where
  "ConstantInt_get w k = ConstantInt w (nat (k mod 2 ^ 64) mod 2 ^ w)"

subsection \<open>The def-use graph\<close>

text \<open>
  \<open>users F n\<close>: the handles of the instructions of \<open>F\<close> that have the result of \<open>n\<close> as
  an operand, one entry per operand slot that holds it, in the order in which
  \<open>user_begin() .. user_end()\<close> walks them. LLVM puts a new use at the head of the
  use-list, so the walk meets the most recent use first: for a function whose
  instructions were created in the order of its layout, the last instruction first and,
  within an instruction, the last operand slot first. The list is computed from the
  operands each time it is asked for, so a use that \<open>replaceAllUsesWith\<close> has moved to
  the value stands in it at the place of its instruction, where LLVM has it at the
  head. What is proved about the walk over the users (\<open>cancel_users_inv\<close>) holds for
  every order of the list.
\<close>

definition users :: "func \<Rightarrow> ident \<Rightarrow> ident list" where
  "users F n =
     rev (concat (map (\<lambda>I. map (\<lambda>v. handle I) (filter (\<lambda>v. v = Inst n) (operands I))) (concat F)))"

definition hasNUses0 :: "func \<Rightarrow> ident \<Rightarrow> bool" where
  "hasNUses0 F n = (users F n = [])"

definition getInst :: "func \<Rightarrow> ident \<Rightarrow> instruction option" where
  "getInst F n = find (\<lambda>I. handle I = n) (concat F)"

definition subst_val :: "ident \<Rightarrow> val \<Rightarrow> val \<Rightarrow> val" where
  "subst_val old new v = (if v = Inst old then new else v)"

fun subst_inst :: "ident \<Rightarrow> val \<Rightarrow> instruction \<Rightarrow> instruction" where
  "subst_inst old new (BinaryOperator n opc a b) =
     BinaryOperator n opc (subst_val old new a) (subst_val old new b)"
| "subst_inst old new (OtherInst n opc ops) = OtherInst n opc (map (subst_val old new) ops)"

text \<open>
  \<open>Value::replaceAllUsesWith\<close>: every operand slot that holds the old value is set to the
  new one. LLVM asserts that the new value is not the old one.
\<close>

definition replaceAllUsesWith :: "ident \<Rightarrow> val \<Rightarrow> func \<Rightarrow> func option" where
  "replaceAllUsesWith old new F =
     (if new = Inst old then None else Some (map (map (subst_inst old new)) F))"

text \<open>
  A created instruction is a new object: its handle is one that no instruction of the
  function has.
\<close>

definition fresh :: "func \<Rightarrow> ident" where
  "fresh F = Suc (fold max (map handle (concat F)) 0)"

text \<open>\<open>Instruction::insertAfter\<close>, for the instruction at position \<open>i\<close> of block \<open>b\<close>.\<close>

definition insertAfter :: "nat \<Rightarrow> nat \<Rightarrow> instruction \<Rightarrow> func \<Rightarrow> func" where
  "insertAfter b i new F = F[b := take (Suc i) (F ! b) @ new # drop (Suc i) (F ! b)]"

text \<open>\<open>Instruction::eraseFromParent\<close>, for the instruction at position \<open>i\<close> of block \<open>b\<close>.\<close>

definition eraseFromParent :: "nat \<Rightarrow> nat \<Rightarrow> func \<Rightarrow> func" where
  "eraseFromParent b i F = F[b := take i (F ! b) @ drop (Suc i) (F ! b)]"

section \<open>getConstantFromInstruction\<close>

text \<open>
  The result \<open>Some (C, Param)\<close> stands for \<open>true\<close> with the two reference parameters
  assigned, \<open>None\<close> for \<open>false\<close>. The callers pass binary operators only (they test the
  opcode first); an instruction of another class has no classification here.
\<close>

fun getConstantFromInstruction :: "instruction \<Rightarrow> (apint \<times> val) option" where
  "getConstantFromInstruction (BinaryOperator n opc (ConstantInt w v) b) = Some ((w, v), b)"
| "getConstantFromInstruction (BinaryOperator n opc a (ConstantInt w v)) = Some ((w, v), a)"
| "getConstantFromInstruction (BinaryOperator n opc a b) = None"
| "getConstantFromInstruction (OtherInst n opc ops) = None"

section \<open>algebraicIdentity_stregthReduction\<close>

text \<open>
  \<open>asr_inst F b i I\<close> is the body of the loop, the \<open>switch\<close> on the opcode, for the
  instruction \<open>I\<close> at position \<open>i\<close> of block \<open>b\<close>.
\<close>

definition asr_mul :: "func \<Rightarrow> nat \<Rightarrow> nat \<Rightarrow> ident \<Rightarrow> apint \<Rightarrow> val \<Rightarrow> func option" where
  "asr_mul F b i n C Param =
     (if snd C = 1 then replaceAllUsesWith n Param F
      else if isPowerOf2 C then
        (let shiftCount = ConstantInt_get (fst C) (exactLogBase2 C);
             shift_left = fresh F;
             F1 = insertAfter b i (BinaryOperator shift_left Shl Param shiftCount) F
         in replaceAllUsesWith n (Inst shift_left) F1)
      else if isPowerOf2 (apint_sub C 1) then
        (let shiftCount = ConstantInt_get (fst C) (exactLogBase2 (apint_sub C 1));
             shift_left = fresh F;
             F1 = insertAfter b i (BinaryOperator shift_left Shl Param shiftCount) F;
             new_add = fresh F1;
             F2 = insertAfter b (Suc i) (BinaryOperator new_add Add (Inst shift_left) Param) F1
         in replaceAllUsesWith n (Inst new_add) F2)
      else if isPowerOf2 (apint_add C 1) then
        (let shiftCount = ConstantInt_get (fst C) (exactLogBase2 (apint_add C 1));
             shift_left = fresh F;
             F1 = insertAfter b i (BinaryOperator shift_left Shl Param shiftCount) F;
             new_sub = fresh F1;
             F2 = insertAfter b (Suc i) (BinaryOperator new_sub Sub (Inst shift_left) Param) F1
         in replaceAllUsesWith n (Inst new_sub) F2)
      else Some F)"

definition asr_sdiv :: "func \<Rightarrow> nat \<Rightarrow> nat \<Rightarrow> ident \<Rightarrow> apint \<Rightarrow> val \<Rightarrow> func option" where
  "asr_sdiv F b i n C Param =
     (if snd C = 1 then replaceAllUsesWith n Param F
      else if isPowerOf2 C then
        (let shiftCount = ConstantInt_get (fst C) (exactLogBase2 C);
             shift_right = fresh F;
             F1 = insertAfter b i (BinaryOperator shift_right LShr Param shiftCount) F
         in replaceAllUsesWith n (Inst shift_right) F1)
      else Some F)"

fun asr_inst :: "func \<Rightarrow> nat \<Rightarrow> nat \<Rightarrow> instruction \<Rightarrow> func option" where
  "asr_inst F b i (BinaryOperator n Add x y) =
     (case getConstantFromInstruction (BinaryOperator n Add x y) of
        None \<Rightarrow> Some F
      | Some (C, Param) \<Rightarrow> if snd C = 0 then replaceAllUsesWith n Param F else Some F)"
| "asr_inst F b i (BinaryOperator n Mul x y) =
     (case getConstantFromInstruction (BinaryOperator n Mul x y) of
        None \<Rightarrow> Some F
      | Some (C, Param) \<Rightarrow> asr_mul F b i n C Param)"
| "asr_inst F b i (BinaryOperator n SDiv x y) =
     (case y of
        ConstantInt w v \<Rightarrow> asr_sdiv F b i n (w, v) x
      | _ \<Rightarrow> Some F)"
| "asr_inst F b i I = Some F"

text \<open>
  The loop inserts instructions behind its cursor and then visits them. It ends because
  only a Mul or an SDiv makes it insert, at most two instructions that are neither.
\<close>

fun weight :: "instruction \<Rightarrow> nat" where
  "weight (BinaryOperator n Mul a b) = 3"
| "weight (BinaryOperator n SDiv a b) = 3"
| "weight I = 1"

definition wsum :: "func \<Rightarrow> nat \<Rightarrow> nat \<Rightarrow> nat" where
  "wsum F b i = sum_list (map weight (drop i (F ! b)))"

lemma weight_subst [simp]: "weight (subst_inst old new I) = weight I"
  by (cases "(old, new, I)" rule: subst_inst.cases; cases I rule: weight.cases) auto

lemma rauw_length: "replaceAllUsesWith old new F = Some F' \<Longrightarrow> length F' = length F"
  by (auto simp: replaceAllUsesWith_def split: if_splits)

lemma rauw_nth:
  "replaceAllUsesWith old new F = Some F' \<Longrightarrow> b < length F \<Longrightarrow>
   F' ! b = map (subst_inst old new) (F ! b)"
  by (auto simp: replaceAllUsesWith_def split: if_splits)

lemma insertAfter_length [simp]: "length (insertAfter b i new F) = length F"
  by (simp add: insertAfter_def)

lemma insertAfter_nth:
  "b < length F \<Longrightarrow>
   insertAfter b i new F ! b = take (Suc i) (F ! b) @ new # drop (Suc i) (F ! b)"
  by (simp add: insertAfter_def)

lemma insertAfter_nth_other:
  "b' \<noteq> b \<Longrightarrow> insertAfter b i new F ! b' = F ! b'"
  by (simp add: insertAfter_def)

lemma asr_inst_length: "asr_inst F b i I = Some F' \<Longrightarrow> length F' = length F"
  by (cases "(F, b, i, I)" rule: asr_inst.cases)
    (auto simp: asr_mul_def asr_sdiv_def Let_def
      split: option.splits if_splits val.splits dest!: rauw_length)

lemma wsum_rauw:
  "replaceAllUsesWith old new F = Some F' \<Longrightarrow> b < length F \<Longrightarrow> wsum F' b i = wsum F b i"
  by (simp add: wsum_def rauw_nth drop_map comp_def)

lemma wsum_insert:
  "b < length F \<Longrightarrow> i < length (F ! b) \<Longrightarrow>
   wsum (insertAfter b i new F) b (Suc i) = weight new + wsum F b (Suc i)"
  by (simp add: wsum_def insertAfter_nth)

lemma wsum_insert2:
  "b < length F \<Longrightarrow> i < length (F ! b) \<Longrightarrow>
   wsum (insertAfter b (Suc i) new2 (insertAfter b i new F)) b (Suc i)
     = weight new + weight new2 + wsum F b (Suc i)"
  by (simp add: wsum_def insertAfter_nth insertAfter_def min_def Suc_diff_le)

lemma wsum_Suc:
  "b < length F \<Longrightarrow> i < length (F ! b) \<Longrightarrow>
   wsum F b i = weight (F ! b ! i) + wsum F b (Suc i)"
  by (simp add: wsum_def Cons_nth_drop_Suc[symmetric])

lemma asr_inst_wsum:
  "asr_inst F b i (F ! b ! i) = Some F' \<Longrightarrow> b < length F \<Longrightarrow> i < length (F ! b) \<Longrightarrow>
   wsum F' b (Suc i) < wsum F b i"
  by (cases "(F, b, i, F ! b ! i)" rule: asr_inst.cases)
    (auto simp: asr_mul_def asr_sdiv_def Let_def wsum_Suc wsum_rauw wsum_insert wsum_insert2
      split: option.splits if_splits val.splits)

function asr_loop :: "func \<Rightarrow> nat \<Rightarrow> nat \<Rightarrow> func option" where
  "asr_loop F b i =
     (if b < length F \<and> i < length (F ! b) then
        (case asr_inst F b i (F ! b ! i) of
           None \<Rightarrow> None
         | Some F' \<Rightarrow> asr_loop F' b (Suc i))
      else Some F)"
  by pat_completeness auto
termination
  by (relation "measure (\<lambda>(F, b, i). wsum F b i)") (auto simp: asr_inst_wsum)

declare asr_loop.simps [simp del]

definition algebraicIdentity_stregthReduction :: "func \<Rightarrow> nat \<Rightarrow> (bool \<times> func) option" where
  "algebraicIdentity_stregthReduction F b =
     (case asr_loop F b 0 of None \<Rightarrow> None | Some F' \<Rightarrow> Some (True, F'))"

section \<open>multiInstructionOptimization\<close>

text \<open>
  \<open>cancel_user\<close> is the body of the loop over the users of the instruction,
  \<open>mio_inst\<close> the body of the loop over the block. \<open>APInt::operator==\<close> asserts that
  both sides have the same bit width.
\<close>

definition cancel_user :: "apint \<Rightarrow> val \<Rightarrow> binop \<Rightarrow> ident \<Rightarrow> func \<Rightarrow> func option" where
  "cancel_user C Param oppositeOpCode u F =
     (case getInst F u of
        Some (BinaryOperator un uop a c) \<Rightarrow>
          if uop = oppositeOpCode then
            (case getConstantFromInstruction (BinaryOperator un uop a c) of
               None \<Rightarrow> Some F
             | Some (userC, userParam) \<Rightarrow>
                 if fst C \<noteq> fst userC then None
                 else if snd C = snd userC then replaceAllUsesWith un Param F
                 else Some F)
          else Some F
      | _ \<Rightarrow> Some F)"

fun cancel_users :: "apint \<Rightarrow> val \<Rightarrow> binop \<Rightarrow> ident list \<Rightarrow> func \<Rightarrow> func option" where
  "cancel_users C Param opp [] F = Some F"
| "cancel_users C Param opp (u # us) F =
     (case cancel_user C Param opp u F of
        None \<Rightarrow> None
      | Some F' \<Rightarrow> cancel_users C Param opp us F')"

fun mio_inst :: "func \<Rightarrow> instruction \<Rightarrow> func option" where
  "mio_inst F (BinaryOperator n opc x y) =
     (if opc = Add \<or> opc = Sub then
        (case getConstantFromInstruction (BinaryOperator n opc x y) of
           None \<Rightarrow> Some F
         | Some (C, Param) \<Rightarrow>
             cancel_users C Param (if opc = Add then Sub else Add) (users F n) F)
      else Some F)"
| "mio_inst F (OtherInst n opc ops) = Some F"

lemma cancel_user_shape:
  "cancel_user C Param opp u F = Some F' \<Longrightarrow> map length F' = map length F"
  by (auto simp: cancel_user_def replaceAllUsesWith_def comp_def
      split: option.splits instruction.splits if_splits prod.splits)

lemma cancel_users_shape:
  "cancel_users C Param opp us F = Some F' \<Longrightarrow> map length F' = map length F"
  by (induction us arbitrary: F) (auto split: option.splits dest: cancel_user_shape)

lemma mio_inst_shape: "mio_inst F I = Some F' \<Longrightarrow> map length F' = map length F"
  by (cases "(F, I)" rule: mio_inst.cases)
    (auto split: option.splits if_splits dest: cancel_users_shape)

lemma shape_length: "map length F' = map length F \<Longrightarrow> length F' = length F"
  by (metis length_map)

lemma shape_nth: "map length F' = map length F \<Longrightarrow> b < length F \<Longrightarrow> length (F' ! b) = length (F ! b)"
  by (metis length_map nth_map)

function mio_loop :: "func \<Rightarrow> nat \<Rightarrow> nat \<Rightarrow> func option" where
  "mio_loop F b i =
     (if b < length F \<and> i < length (F ! b) then
        (case mio_inst F (F ! b ! i) of
           None \<Rightarrow> None
         | Some F' \<Rightarrow> mio_loop F' b (Suc i))
      else Some F)"
  by pat_completeness auto
termination
proof (relation "measure (\<lambda>(F, b, i). length (F ! b) - i)")
  show "wf (measure (\<lambda>(F, b, i). length (F ! b) - i))"
    by simp
next
  fix F :: func and b i F'
  assume bounds: "b < length F \<and> i < length (F ! b)"
    and step: "mio_inst F (F ! b ! i) = Some F'"
  from step bounds have "length (F' ! b) = length (F ! b)"
    by (intro shape_nth [OF mio_inst_shape]) simp_all
  with bounds show "((F', b, Suc i), F, b, i) \<in> measure (\<lambda>(F, b, i). length (F ! b) - i)"
    by auto
qed

declare mio_loop.simps [simp del]

definition multiInstructionOptimization :: "func \<Rightarrow> nat \<Rightarrow> (bool \<times> func) option" where
  "multiInstructionOptimization F b =
     (case mio_loop F b 0 of None \<Rightarrow> None | Some F' \<Rightarrow> Some (True, F'))"

section \<open>deadCodeElimination\<close>

lemma eraseFromParent_length [simp]: "length (eraseFromParent b i F) = length F"
  by (simp add: eraseFromParent_def)

lemma eraseFromParent_nth:
  "b < length F \<Longrightarrow> eraseFromParent b i F ! b = take i (F ! b) @ drop (Suc i) (F ! b)"
  by (simp add: eraseFromParent_def)

lemma eraseFromParent_nth_other: "b' \<noteq> b \<Longrightarrow> eraseFromParent b i F ! b' = F ! b'"
  by (simp add: eraseFromParent_def)

function dce_loop :: "func \<Rightarrow> nat \<Rightarrow> nat \<Rightarrow> func" where
  "dce_loop F b i =
     (if b < length F \<and> i < length (F ! b) then
        (if hasNUses0 F (handle (F ! b ! i)) \<and> isBinaryOp (F ! b ! i)
         then dce_loop (eraseFromParent b i F) b i
         else dce_loop F b (Suc i))
      else F)"
  by pat_completeness auto
termination
  by (relation "measure (\<lambda>(F, b, i). length (F ! b) - i)")
    (auto simp: eraseFromParent_nth)

declare dce_loop.simps [simp del]

definition deadCodeElimination :: "func \<Rightarrow> nat \<Rightarrow> bool \<times> func" where
  "deadCodeElimination F b = (True, dce_loop F b 0)"

section \<open>runOnFunction and LocalOpts::run\<close>

lemma asr_loop_length: "asr_loop F b i = Some F' \<Longrightarrow> length F' = length F"
proof (induction F b i rule: asr_loop.induct)
  case (1 F b i)
  show ?case
  proof (cases "b < length F \<and> i < length (F ! b)")
    case True
    with "1.prems" obtain F1 where step: "asr_inst F b i (F ! b ! i) = Some F1"
      and rest: "asr_loop F1 b (Suc i) = Some F'"
      by (subst (asm) asr_loop.simps) (auto split: option.splits)
    from "1.IH" [OF True step rest] asr_inst_length [OF step] show ?thesis
      by simp
  next
    case False
    with "1.prems" show ?thesis
      by (subst (asm) asr_loop.simps) auto
  qed
qed

lemma mio_loop_shape: "mio_loop F b i = Some F' \<Longrightarrow> map length F' = map length F"
proof (induction F b i rule: mio_loop.induct)
  case (1 F b i)
  show ?case
  proof (cases "b < length F \<and> i < length (F ! b)")
    case True
    with "1.prems" obtain F1 where step: "mio_inst F (F ! b ! i) = Some F1"
      and rest: "mio_loop F1 b (Suc i) = Some F'"
      by (subst (asm) mio_loop.simps) (auto split: option.splits)
    from "1.IH" [OF True step rest] mio_inst_shape [OF step] show ?thesis
      by simp
  next
    case False
    with "1.prems" show ?thesis
      by (subst (asm) mio_loop.simps) auto
  qed
qed

lemma dce_loop_length [simp]: "length (dce_loop F b i) = length F"
proof (induction F b i rule: dce_loop.induct)
  case (1 F b i)
  then show ?case
    by (subst dce_loop.simps) auto
qed

lemma asr_length:
  "algebraicIdentity_stregthReduction F b = Some (r, F') \<Longrightarrow> length F' = length F"
  by (auto simp: algebraicIdentity_stregthReduction_def split: option.splits
      dest: asr_loop_length)

lemma mio_length:
  "multiInstructionOptimization F b = Some (r, F') \<Longrightarrow> length F' = length F"
  by (auto simp: multiInstructionOptimization_def split: option.splits
      dest!: mio_loop_shape shape_length)

lemma dce_length: "deadCodeElimination F b = (r, F') \<Longrightarrow> length F' = length F"
  by (auto simp: deadCodeElimination_def)

function rof_loop :: "func \<Rightarrow> nat \<Rightarrow> bool \<Rightarrow> (bool \<times> func) option" where
  "rof_loop F Iter Transformed =
     (if Iter < length F then
        (case algebraicIdentity_stregthReduction F Iter of
           None \<Rightarrow> None
         | Some (r1, F1) \<Rightarrow>
            (case multiInstructionOptimization F1 Iter of
               None \<Rightarrow> None
             | Some (r2, F2) \<Rightarrow>
                (case deadCodeElimination F2 Iter of
                   (r3, F3) \<Rightarrow> rof_loop F3 (Suc Iter) (((Transformed \<or> r1) \<or> r2) \<or> r3))))
      else Some (Transformed, F))"
  by pat_completeness auto
termination
proof (relation "measure (\<lambda>(F, Iter, Transformed). length F - Iter)")
  show "wf (measure (\<lambda>(F, Iter, Transformed). length F - Iter))"
    by simp
next
  fix F :: func and Iter Transformed x2 r1 F1 x2a r2 F2 r3 F3
  assume lt: "Iter < length F"
    and a: "algebraicIdentity_stregthReduction F Iter = Some x2" "(r1, F1) = x2"
    and m: "multiInstructionOptimization F1 Iter = Some x2a" "(r2, F2) = x2a"
    and d: "(r3, F3) = deadCodeElimination F2 Iter"
  have "length F3 = length F"
    using asr_length [of F Iter r1 F1] mio_length [of F1 Iter r2 F2]
      dce_length [of F2 Iter r3 F3] a m d by simp
  with lt show "((F3, Suc Iter, ((Transformed \<or> r1) \<or> r2) \<or> r3), F, Iter, Transformed)
      \<in> measure (\<lambda>(F, Iter, Transformed). length F - Iter)"
    by auto
qed

declare rof_loop.simps [simp del]

text \<open>
  \<open>run\<close> returns \<open>True\<close> for \<open>PreservedAnalyses::none()\<close> and \<open>False\<close> for
  \<open>PreservedAnalyses::all()\<close>, with the module as the pass leaves it.
\<close>

definition runOnFunction :: "func \<Rightarrow> (bool \<times> func) option" where
  "runOnFunction F = rof_loop F 0 False"

fun run :: "module_ir \<Rightarrow> (bool \<times> module_ir) option" where
  "run [] = Some (False, [])"
| "run (F # M) =
     (case runOnFunction F of
        None \<Rightarrow> None
      | Some (Transformed, F') \<Rightarrow>
          if Transformed then Some (True, F' # M)
          else (case run M of
                  None \<Rightarrow> None
                | Some (r, M') \<Rightarrow> Some (r, F' # M')))"

section \<open>Executing a block\<close>

text \<open>
  What a block computes is not part of LocalOpts.cpp. The evaluator follows the LLVM
  language reference for the instructions the pass reads or creates: arithmetic modulo
  \<open>2 ^ width\<close>, \<open>sdiv\<close> rounding towards zero on the two's complement reading, shifts
  by less than the width, and \<open>ret\<close> (opcode 1) yielding the value of its operand.
  Anything else, and every undefined or poison result, is \<open>None\<close>.
\<close>

fun value_of :: "(nat \<Rightarrow> apint) \<Rightarrow> (ident \<rightharpoonup> apint) \<Rightarrow> val \<Rightarrow> apint option" where
  "value_of args env (ConstantInt w v) = Some (w, v)"
| "value_of args env (Inst n) = env n"
| "value_of args env (Argument a) = Some (args a)"

definition to_signed :: "nat \<Rightarrow> nat \<Rightarrow> int" where
  "to_signed w v = (if v < 2 ^ (w - 1) then int v else int v - 2 ^ w)"

definition trunc_div :: "int \<Rightarrow> int \<Rightarrow> int" where
  "trunc_div x y = sgn x * sgn y * (\<bar>x\<bar> div \<bar>y\<bar>)"

fun binop_result :: "binop \<Rightarrow> nat \<Rightarrow> nat \<Rightarrow> nat \<Rightarrow> nat option" where
  "binop_result Add w x y = Some ((x + y) mod 2 ^ w)"
| "binop_result Sub w x y = Some ((x + 2 ^ w - y mod 2 ^ w) mod 2 ^ w)"
| "binop_result Mul w x y = Some ((x * y) mod 2 ^ w)"
| "binop_result SDiv w x y =
     (if y = 0 \<or> (to_signed w x = - (2 ^ (w - 1)) \<and> to_signed w y = - 1) then None
      else Some (nat (trunc_div (to_signed w x) (to_signed w y) mod 2 ^ w)))"
| "binop_result Shl w x y = (if y < w then Some ((x * 2 ^ y) mod 2 ^ w) else None)"
| "binop_result LShr w x y = (if y < w then Some (x div 2 ^ y) else None)"
| "binop_result (OtherBinary k) w x y = None"

fun exec_block :: "(nat \<Rightarrow> apint) \<Rightarrow> (ident \<rightharpoonup> apint) \<Rightarrow> basic_block \<Rightarrow> apint option" where
  "exec_block args env [] = None"
| "exec_block args env (BinaryOperator n opc a b # rest) =
     (case (value_of args env a, value_of args env b) of
        (Some (w, x), Some (w', y)) \<Rightarrow>
          if w = w' then
            (case binop_result opc w x y of
               None \<Rightarrow> None
             | Some r \<Rightarrow> exec_block args (env(n \<mapsto> (w, r))) rest)
          else None
      | _ \<Rightarrow> None)"
| "exec_block args env (OtherInst n opc ops # rest) =
     (if opc = 1 then (case ops of [v] \<Rightarrow> value_of args env v | _ \<Rightarrow> None) else None)"

text \<open>The equations that evaluate the pipeline on a given function.\<close>

lemmas eval_simps = runOnFunction_def rof_loop.simps algebraicIdentity_stregthReduction_def
  multiInstructionOptimization_def deadCodeElimination_def asr_loop.simps mio_loop.simps dce_loop.simps
  asr_mul_def asr_sdiv_def cancel_user_def users_def hasNUses0_def getInst_def replaceAllUsesWith_def
  subst_val_def fresh_def insertAfter_def eraseFromParent_def isPowerOf2_def exactLogBase2_def
  apint_sub_def apint_add_def ConstantInt_get_def pow2.simps logBase2.simps Let_def

section \<open>Vocabulary of the properties\<close>

text \<open>
  \<open>redirect n v F\<close> is \<open>F\<close> with every operand slot that held the result of \<open>n\<close> holding
  \<open>v\<close>; handles, opcodes and positions are as in \<open>F\<close>. \<open>splice F b i news\<close> is \<open>F\<close> with
  the instructions \<open>news\<close> immediately after position \<open>i\<close> of block \<open>b\<close>.
\<close>

definition redirect :: "ident \<Rightarrow> val \<Rightarrow> func \<Rightarrow> func" where
  "redirect n v F = map (map (subst_inst n v)) F"

definition splice :: "func \<Rightarrow> nat \<Rightarrow> nat \<Rightarrow> instruction list \<Rightarrow> func" where
  "splice F b i news = F[b := take (Suc i) (F ! b) @ news @ drop (Suc i) (F ! b)]"

text \<open>
  \<open>takes_all_uses F b i n news v F'\<close>: from \<open>F\<close> to \<open>F'\<close>, the instructions \<open>news\<close> were
  inserted immediately after the instruction \<open>n\<close> at position \<open>i\<close> of block \<open>b\<close>, and \<open>v\<close>
  took all uses of \<open>n\<close>: \<open>n\<close> has no use left, it stands unchanged at its position, and
  \<open>news\<close> stand unchanged right behind it.
\<close>

definition takes_all_uses ::
  "func \<Rightarrow> nat \<Rightarrow> nat \<Rightarrow> ident \<Rightarrow> instruction list \<Rightarrow> val \<Rightarrow> func \<Rightarrow> bool" where
  "takes_all_uses F b i n news v F' \<longleftrightarrow>
     F' = redirect n v (splice F b i news) \<and>
     users F' n = [] \<and>
     F' ! b ! i = F ! b ! i \<and>
     take (length news) (drop (Suc i) (F' ! b)) = news"

text \<open>A block \<open>%1 = opc p, q; ret %1\<close>, for the examples.\<close>

definition ex_block :: "binop \<Rightarrow> val \<Rightarrow> val \<Rightarrow> func" where
  "ex_block opc p q = [[BinaryOperator 1 opc p q, OtherInst 2 1 [Inst 1]]]"

text \<open>
  \<open>sweep_reaches F b G i\<close>: the sweep of \<open>deadCodeElimination\<close> over block \<open>b\<close>, started on
  \<open>F\<close>, comes to the function \<open>G\<close> with its cursor at position \<open>i\<close>.
\<close>

inductive sweep_reaches :: "func \<Rightarrow> nat \<Rightarrow> func \<Rightarrow> nat \<Rightarrow> bool" for F b where
  start: "sweep_reaches F b F 0"
| erase: "sweep_reaches F b G i \<Longrightarrow> b < length G \<Longrightarrow> i < length (G ! b) \<Longrightarrow>
          hasNUses0 G (handle (G ! b ! i)) \<and> isBinaryOp (G ! b ! i) \<Longrightarrow>
          sweep_reaches F b (eraseFromParent b i G) i"
| advance: "sweep_reaches F b G i \<Longrightarrow> b < length G \<Longrightarrow> i < length (G ! b) \<Longrightarrow>
          \<not> (hasNUses0 G (handle (G ! b ! i)) \<and> isBinaryOp (G ! b ! i)) \<Longrightarrow>
          sweep_reaches F b G (Suc i)"

code_pred sweep_reaches .

text \<open>
  \<open>asr_reaches F b G i\<close>: the loop of \<open>algebraicIdentity_stregthReduction\<close> over block
  \<open>b\<close>, started on \<open>F\<close>, comes to the function \<open>G\<close> with its cursor at position \<open>i\<close>.
  \<open>mio_reaches\<close> is the same for the loop of \<open>multiInstructionOptimization\<close>.
\<close>

inductive asr_reaches :: "func \<Rightarrow> nat \<Rightarrow> func \<Rightarrow> nat \<Rightarrow> bool" for F b where
  start: "asr_reaches F b F 0"
| step: "asr_reaches F b G i \<Longrightarrow> b < length G \<Longrightarrow> i < length (G ! b) \<Longrightarrow>
         asr_inst G b i (G ! b ! i) = Some G' \<Longrightarrow> asr_reaches F b G' (Suc i)"

code_pred asr_reaches .

inductive mio_reaches :: "func \<Rightarrow> nat \<Rightarrow> func \<Rightarrow> nat \<Rightarrow> bool" for F b where
  start: "mio_reaches F b F 0"
| step: "mio_reaches F b G i \<Longrightarrow> b < length G \<Longrightarrow> i < length (G ! b) \<Longrightarrow>
         mio_inst G (G ! b ! i) = Some G' \<Longrightarrow> mio_reaches F b G' (Suc i)"

code_pred mio_reaches .

text \<open>
  \<open>asr_rewrites F b G i n news v\<close>: the pass over block \<open>b\<close> of \<open>F\<close>, come to \<open>G\<close> and
  position \<open>i\<close> where the instruction \<open>n\<close> stands, inserts \<open>news\<close> immediately after
  \<open>n\<close> and gives all uses of \<open>n\<close> to \<open>v\<close>; its loop goes on from there at the next
  position, and what the pass returns is what the loop returns from there. In the
  function the pass returns, \<open>n\<close> has no use, and block \<open>b\<close> has up to \<open>n\<close> the
  instructions it had in \<open>G\<close>, then \<open>n\<close>, then the instructions \<open>news\<close> (instructions are
  compared by their handles: later rewrites may change operands).
  \<open>asr_keeps F b G i\<close>: at that moment the pass leaves the function as it is and its loop
  goes on at the next position.
\<close>

definition asr_rewrites ::
  "func \<Rightarrow> nat \<Rightarrow> func \<Rightarrow> nat \<Rightarrow> ident \<Rightarrow> instruction list \<Rightarrow> val \<Rightarrow> bool" where
  "asr_rewrites F b G i n news v \<longleftrightarrow>
     (case asr_inst G b i (G ! b ! i) of
        None \<Rightarrow> False
      | Some G' \<Rightarrow>
          takes_all_uses G b i n news v G' \<and> asr_reaches F b G' (Suc i) \<and>
          (case algebraicIdentity_stregthReduction F b of
             None \<Rightarrow> asr_loop G' b (Suc i) = None
           | Some (t, R) \<Rightarrow>
               asr_loop G' b (Suc i) = Some R \<and> users R n = [] \<and>
               map handle (take (Suc i + length news) (R ! b))
                 = map handle (take i (G ! b)) @ n # map handle news))"

definition asr_keeps :: "func \<Rightarrow> nat \<Rightarrow> func \<Rightarrow> nat \<Rightarrow> bool" where
  "asr_keeps F b G i \<longleftrightarrow>
     asr_inst G b i (G ! b ! i) = Some G \<and> asr_reaches F b G (Suc i) \<and>
     algebraicIdentity_stregthReduction F b
       = (case asr_loop G b (Suc i) of None \<Rightarrow> None | Some R \<Rightarrow> Some (True, R))"

text \<open>
  \<open>users_typed F n Param w\<close>: what LLVM's typing of binary operators gives for an
  instruction \<open>n\<close> of bit width \<open>w\<close> with the operand \<open>Param\<close>: \<open>Param\<close>, when it is an
  integer constant, and the integer constants among the operands of the binary operators
  that use \<open>n\<close>, have the width \<open>w\<close>.
\<close>

fun int_widths :: "val list \<Rightarrow> nat list" where
  "int_widths [] = []"
| "int_widths (ConstantInt w c # vs) = w # int_widths vs"
| "int_widths (v # vs) = int_widths vs"

definition users_typed :: "func \<Rightarrow> ident \<Rightarrow> val \<Rightarrow> nat \<Rightarrow> bool" where
  "users_typed F n Param w \<longleftrightarrow>
     list_all (\<lambda>w'. w' = w) (int_widths [Param]) \<and>
     list_all (\<lambda>J. \<not> (isBinaryOp J \<and> Inst n \<in> set (operands J)) \<or>
                    list_all (\<lambda>w'. w' = w) (int_widths (operands J))) (concat F)"

subsection \<open>Auxiliary notions of the proofs\<close>

text \<open>
  The cancellation redirects the uses of a set \<open>D\<close> of instructions to one value:
  \<open>redirect_many D v F\<close>. \<open>Dinv\<close> is the invariant of its loop over the users of \<open>n\<close>:
  the instructions redirected so far are users of \<open>n\<close> with the opposite opcode.
\<close>

fun opcode_is :: "instruction \<Rightarrow> binop \<Rightarrow> bool" where
  "opcode_is (BinaryOperator n opc a b) opp = (opc = opp)"
| "opcode_is (OtherInst n opc ops) opp = False"

definition subst_many :: "ident set \<Rightarrow> val \<Rightarrow> val \<Rightarrow> val" where
  "subst_many D v x = (case x of Inst m \<Rightarrow> if m \<in> D then v else x | _ \<Rightarrow> x)"

fun subst_many_inst :: "ident set \<Rightarrow> val \<Rightarrow> instruction \<Rightarrow> instruction" where
  "subst_many_inst D v (BinaryOperator n opc a b) =
     BinaryOperator n opc (subst_many D v a) (subst_many D v b)"
| "subst_many_inst D v (OtherInst n opc ops) = OtherInst n opc (map (subst_many D v) ops)"

definition redirect_many :: "ident set \<Rightarrow> val \<Rightarrow> func \<Rightarrow> func" where
  "redirect_many D v F = map (map (subst_many_inst D v)) F"

definition Dinv :: "func \<Rightarrow> ident \<Rightarrow> binop \<Rightarrow> ident set \<Rightarrow> bool" where
  "Dinv F n opp D \<longleftrightarrow>
     (\<forall>d \<in> D. \<exists>J \<in> set (concat F). handle J = d \<and> opcode_is J opp \<and> Inst n \<in> set (operands J))"

section \<open>Properties\<close>

lemma neg_mod_nat:
  fixes x k N :: nat
  assumes "0 < N" 
  shows "(k + N - (x + k) mod N) mod N = (N - x mod N) mod N"
proof -
  have le: "(x + k) mod N \<le> k + N" using assms
    by (meson less_imp_le_nat mod_less_divisor trans_le_add2)
  have "int ((k + N - (x + k) mod N) mod N) = (int k + int N - (int x + int k) mod int N) mod int N"
    using le by (simp add: of_nat_diff zmod_int)
  also have "\<dots> = (- int x) mod int N"
    by (simp add: mod_simps)
  finally have l: "int ((k + N - (x + k) mod N) mod N) = (- int x) mod int N" .
  have "x mod N \<le> N" using assms by (simp add: less_imp_le)
  then have "int ((N - x mod N) mod N) = (int N - int x mod int N) mod int N"
    by (simp add: of_nat_diff zmod_int)
  also have "\<dots> = (- int x) mod int N"
    by (simp add: mod_simps)
  finally show ?thesis using l by (metis of_nat_eq_iff)
qed

text \<open>
  C10. The cancellation fires on the opposite opcode and the equal constant alone: it
  checks neither which operand slot of the user holds the instruction nor that the
  instruction is the user's classified variable operand. In the block
  \<open>I = x + k; U = k - I; ret U\<close> the pass redirects the use of \<open>U\<close> to \<open>x\<close>, although
  \<open>U\<close> computes \<open>k - (x + k) = - x\<close>: the block returned \<open>- x\<close> before the pass and
  returns \<open>x\<close> after it.
\<close>

theorem cancellation_ignores_operand_slot:
  assumes "k < 2 ^ w" and "x < 2 ^ w"
  shows "multiInstructionOptimization
           [[BinaryOperator 1 Add (Argument a) (ConstantInt w k),
             BinaryOperator 2 Sub (ConstantInt w k) (Inst 1),
             OtherInst 3 1 [Inst 2]]] 0
         = Some (True,
           [[BinaryOperator 1 Add (Argument a) (ConstantInt w k),
             BinaryOperator 2 Sub (ConstantInt w k) (Inst 1),
             OtherInst 3 1 [Argument a]]])
       \<and> exec_block (\<lambda>_. (w, x)) Map.empty
           [BinaryOperator 1 Add (Argument a) (ConstantInt w k),
            BinaryOperator 2 Sub (ConstantInt w k) (Inst 1),
            OtherInst 3 1 [Inst 2]] = Some (w, (2 ^ w - x) mod 2 ^ w)
       \<and> exec_block (\<lambda>_. (w, x)) Map.empty
           [BinaryOperator 1 Add (Argument a) (ConstantInt w k),
            BinaryOperator 2 Sub (ConstantInt w k) (Inst 1),
            OtherInst 3 1 [Argument a]] = Some (w, x)"
proof (intro conjI)
  show "multiInstructionOptimization
           [[BinaryOperator 1 Add (Argument a) (ConstantInt w k),
             BinaryOperator 2 Sub (ConstantInt w k) (Inst 1),
             OtherInst 3 1 [Inst 2]]] 0
         = Some (True,
           [[BinaryOperator 1 Add (Argument a) (ConstantInt w k),
             BinaryOperator 2 Sub (ConstantInt w k) (Inst 1),
             OtherInst 3 1 [Argument a]]])"
    by (simp add: eval_simps)
next
  have "(k + 2 ^ w - (x + k) mod 2 ^ w) mod 2 ^ w = (2 ^ w - x mod 2 ^ w) mod (2 ^ w :: nat)"
    by (rule neg_mod_nat) simp
  with assms show "exec_block (\<lambda>_. (w, x)) Map.empty
           [BinaryOperator 1 Add (Argument a) (ConstantInt w k),
            BinaryOperator 2 Sub (ConstantInt w k) (Inst 1),
            OtherInst 3 1 [Inst 2]] = Some (w, (2 ^ w - x) mod 2 ^ w)"
    by simp
next
  show "exec_block (\<lambda>_. (w, x)) Map.empty
           [BinaryOperator 1 Add (Argument a) (ConstantInt w k),
            BinaryOperator 2 Sub (ConstantInt w k) (Inst 1),
            OtherInst 3 1 [Argument a]] = Some (w, x)"
    by simp
qed

theorem cancellation_ignores_operand_slot_witness:
  "(5::nat) < 2 ^ 8 \<and> (1::nat) < 2 ^ 8
   \<and> multiInstructionOptimization
        [[BinaryOperator 1 Add (Argument 0) (ConstantInt 8 5),
          BinaryOperator 2 Sub (ConstantInt 8 5) (Inst 1),
          OtherInst 3 1 [Inst 2]]] 0
      = Some (True,
        [[BinaryOperator 1 Add (Argument 0) (ConstantInt 8 5),
          BinaryOperator 2 Sub (ConstantInt 8 5) (Inst 1),
          OtherInst 3 1 [Argument 0]]])
   \<and> exec_block (\<lambda>_. (8, 1)) Map.empty
        [BinaryOperator 1 Add (Argument 0) (ConstantInt 8 5),
         BinaryOperator 2 Sub (ConstantInt 8 5) (Inst 1),
         OtherInst 3 1 [Inst 2]] = Some (8, 255)
   \<and> exec_block (\<lambda>_. (8, 1)) Map.empty
        [BinaryOperator 1 Add (Argument 0) (ConstantInt 8 5),
         BinaryOperator 2 Sub (ConstantInt 8 5) (Inst 1),
         OtherInst 3 1 [Argument 0]] = Some (8, 1)"
  using cancellation_ignores_operand_slot [of 5 8 1 0] by simp

subsection \<open>The driver\<close>

lemma asr_flag: "algebraicIdentity_stregthReduction F b = Some (r, F') \<Longrightarrow> r"
  by (auto simp: algebraicIdentity_stregthReduction_def split: option.splits)

lemma mio_flag: "multiInstructionOptimization F b = Some (r, F') \<Longrightarrow> r"
  by (auto simp: multiInstructionOptimization_def split: option.splits)

lemma dce_flag: "deadCodeElimination F b = (r, F') \<Longrightarrow> r"
  by (auto simp: deadCodeElimination_def)

lemma rof_loop_flag:
  "rof_loop F b T = Some (t, F') \<Longrightarrow> t = (T \<or> b < length F)"
proof (induction F b T rule: rof_loop.induct)
  case (1 F Iter Transformed)
  show ?case
  proof (cases "Iter < length F")
    case False
    with "1.prems" show ?thesis
      by (subst (asm) rof_loop.simps) auto
  next
    case True
    from "1.prems" True obtain r1 F1 r2 F2 r3 F3 where
      a: "algebraicIdentity_stregthReduction F Iter = Some (r1, F1)" and
      m: "multiInstructionOptimization F1 Iter = Some (r2, F2)" and
      d: "deadCodeElimination F2 Iter = (r3, F3)" and
      rest: "rof_loop F3 (Suc Iter) (((Transformed \<or> r1) \<or> r2) \<or> r3) = Some (t, F')"
      by (subst (asm) rof_loop.simps) (auto split: option.splits prod.splits)
    from "1.IH" [OF True a refl m refl d [symmetric] rest]
    have "t = ((((Transformed \<or> r1) \<or> r2) \<or> r3) \<or> Suc Iter < length F3)" .
    with asr_flag [OF a] True show ?thesis
      by simp
  qed
qed

lemma runOnFunction_flag: "runOnFunction F = Some (t, F') \<Longrightarrow> t = (F \<noteq> [])"
  by (auto simp: runOnFunction_def dest: rof_loop_flag)

lemma runOnFunction_Nil: "runOnFunction [] = Some (False, [])"
  by (simp add: runOnFunction_def rof_loop.simps)

text \<open>
  C1, as the code has it. Each of the three transforms returns \<open>true\<close> whether or not it
  rewrote anything, so \<open>run\<close> reports "transformed" exactly when some function of the
  module has a basic block. When it reports "not transformed" the module is unmodified.
  (\<open>None\<close>, an LLVM assertion failure, needs a function with a block too.)
\<close>

theorem run_reports:
  "case run M of
     None \<Rightarrow> \<exists>F \<in> set M. F \<noteq> []
   | Some (changed, M') \<Rightarrow>
       (changed \<longleftrightarrow> (\<exists>F \<in> set M. F \<noteq> [])) \<and> (\<not> changed \<longrightarrow> M' = M)"
proof (induction M)
  case Nil
  show ?case by simp
next
  case (Cons F M)
  show ?case
  proof (cases "F = []")
    case True
    with Cons show ?thesis
      by (auto simp: runOnFunction_Nil split: option.splits)
  next
    case False
    then show ?thesis
      by (auto split: option.splits dest: runOnFunction_flag)
  qed
qed

theorem run_reports_witness:
  "run [[], []] = Some (False, [[], []])
   \<and> run [[], [[OtherInst 0 1 []]]] = Some (True, [[], [[OtherInst 0 1 []]]])"
  using run_reports [of "[[], []]"] run_reports [of "[[], [[OtherInst 0 1 []]]]"]
  by (simp add: eval_simps)

text \<open>
  C1 as stated fails: for a module whose only function is the block \<open>ret %arg0\<close>, no
  transform rewrites anything and the module is returned as it was, yet \<open>run\<close> reports
  "transformed".
\<close>

theorem changed_without_rewrite:
  "run [[[OtherInst 0 1 [Argument 0]]]] = Some (True, [[[OtherInst 0 1 [Argument 0]]]])"
  by (simp add: eval_simps)

lemma run_returns_at_first_body:
  assumes "F \<noteq> []" and "runOnFunction F = Some (t, F')"
  shows "run (F # M) = Some (True, F' # M)"
  using assms runOnFunction_flag [OF assms(2)] by simp

text \<open>
  C2. \<open>run\<close> returns as soon as \<open>runOnFunction\<close> reports a change, which it does for every
  function with a basic block: of two functions with the same body \<open>%1 = add %arg0, 0;
  ret %1\<close> the first is optimised and the second is left as it was, although
  \<open>runOnFunction\<close> rewrites that body.
\<close>

theorem run_stops_after_first_function:
  "runOnFunction [[BinaryOperator 1 Add (Argument 0) (ConstantInt 32 0), OtherInst 2 1 [Inst 1]]]
     = Some (True, [[OtherInst 2 1 [Argument 0]]])
   \<and> run [[[BinaryOperator 1 Add (Argument 0) (ConstantInt 32 0), OtherInst 2 1 [Inst 1]]],
           [[BinaryOperator 1 Add (Argument 0) (ConstantInt 32 0), OtherInst 2 1 [Inst 1]]]]
     = Some (True,
          [[[OtherInst 2 1 [Argument 0]]],
           [[BinaryOperator 1 Add (Argument 0) (ConstantInt 32 0), OtherInst 2 1 [Inst 1]]]])"
  by (simp add: eval_simps)

text \<open>
  C3. The pipeline changes what a block computes: \<open>%1 = sub 5, %arg0; %2 = add %1, 5;
  ret %2\<close> on 8 bits returns \<open>10 - x\<close>, 9 for \<open>x = 1\<close>; the cancellation takes \<open>%2\<close> for
  \<open>%arg0\<close>, and the optimised block returns 1.
\<close>

theorem optimizer_changes_result:
  "runOnFunction
     [[BinaryOperator 1 Sub (ConstantInt 8 5) (Argument 0),
       BinaryOperator 2 Add (Inst 1) (ConstantInt 8 5),
       OtherInst 3 1 [Inst 2]]]
   = Some (True,
     [[BinaryOperator 1 Sub (ConstantInt 8 5) (Argument 0),
       OtherInst 3 1 [Argument 0]]])
   \<and> exec_block (\<lambda>_. (8, 1)) Map.empty
       [BinaryOperator 1 Sub (ConstantInt 8 5) (Argument 0),
        BinaryOperator 2 Add (Inst 1) (ConstantInt 8 5),
        OtherInst 3 1 [Inst 2]] = Some (8, 9)
   \<and> exec_block (\<lambda>_. (8, 1)) Map.empty
       [BinaryOperator 1 Sub (ConstantInt 8 5) (Argument 0),
        OtherInst 3 1 [Argument 0]] = Some (8, 1)"
  by (simp add: eval_simps)

text \<open>
  The same for the division: \<open>sdiv -1, 2\<close> is 0, the logical shift that replaces it
  gives 127 on 8 bits.
\<close>

lemma sdiv_by_two_of_minus_one:
  "runOnFunction
     [[BinaryOperator 1 SDiv (Argument 0) (ConstantInt 8 2),
       OtherInst 2 1 [Inst 1]]]
   = Some (True,
     [[BinaryOperator 3 LShr (Argument 0) (ConstantInt 8 1),
       OtherInst 2 1 [Inst 3]]])
   \<and> exec_block (\<lambda>_. (8, 255)) Map.empty
       [BinaryOperator 1 SDiv (Argument 0) (ConstantInt 8 2),
        OtherInst 2 1 [Inst 1]] = Some (8, 0)
   \<and> exec_block (\<lambda>_. (8, 255)) Map.empty
       [BinaryOperator 3 LShr (Argument 0) (ConstantInt 8 1),
        OtherInst 2 1 [Inst 3]] = Some (8, 127)"
  by (simp add: eval_simps to_signed_def trunc_div_def)

text \<open>
  C9 as stated fails: in \<open>t = x + 5; y = t - 5; ret y\<close> the cancellation redirects the use
  of \<open>y\<close> to \<open>x\<close>, but \<open>t\<close> is still used by \<open>y\<close> after it, and the pipeline leaves \<open>t\<close>
  in the block: the sweep passes \<open>t\<close> while \<open>y\<close> uses it, then erases \<open>y\<close>.
\<close>

theorem pair_keeps_t_counterexample:
  "multiInstructionOptimization
     [[BinaryOperator 1 Add (Argument 0) (ConstantInt 32 5),
       BinaryOperator 2 Sub (Inst 1) (ConstantInt 32 5),
       OtherInst 3 1 [Inst 2]]] 0
   = Some (True,
     [[BinaryOperator 1 Add (Argument 0) (ConstantInt 32 5),
       BinaryOperator 2 Sub (Inst 1) (ConstantInt 32 5),
       OtherInst 3 1 [Argument 0]]])
   \<and> \<not> hasNUses0
       [[BinaryOperator 1 Add (Argument 0) (ConstantInt 32 5),
         BinaryOperator 2 Sub (Inst 1) (ConstantInt 32 5),
         OtherInst 3 1 [Argument 0]]] 1
   \<and> runOnFunction
     [[BinaryOperator 1 Add (Argument 0) (ConstantInt 32 5),
       BinaryOperator 2 Sub (Inst 1) (ConstantInt 32 5),
       OtherInst 3 1 [Inst 2]]]
   = Some (True,
     [[BinaryOperator 1 Add (Argument 0) (ConstantInt 32 5),
       OtherInst 3 1 [Argument 0]]])"
  by (simp add: eval_simps)

text \<open>
  C9, as the code has it. For the block \<open>t = x + 5; y = t - 5; ret y\<close> with \<open>x\<close> an
  argument, on any bit width: after the cancellation pass the use of \<open>y\<close> is redirected to
  \<open>x\<close>, \<open>y\<close> has no use and \<open>t\<close> has the one by \<open>y\<close>; the pipeline removes \<open>y\<close> and
  leaves \<open>t\<close> in the block, with no use.
\<close>

theorem add_sub_pair:
  "multiInstructionOptimization
     [[BinaryOperator 1 Add (Argument a) (ConstantInt w 5),
       BinaryOperator 2 Sub (Inst 1) (ConstantInt w 5),
       OtherInst 3 1 [Inst 2]]] 0
   = Some (True,
     [[BinaryOperator 1 Add (Argument a) (ConstantInt w 5),
       BinaryOperator 2 Sub (Inst 1) (ConstantInt w 5),
       OtherInst 3 1 [Argument a]]])
   \<and> users
       [[BinaryOperator 1 Add (Argument a) (ConstantInt w 5),
         BinaryOperator 2 Sub (Inst 1) (ConstantInt w 5),
         OtherInst 3 1 [Argument a]]] 2 = []
   \<and> users
       [[BinaryOperator 1 Add (Argument a) (ConstantInt w 5),
         BinaryOperator 2 Sub (Inst 1) (ConstantInt w 5),
         OtherInst 3 1 [Argument a]]] 1 = [2]
   \<and> runOnFunction
     [[BinaryOperator 1 Add (Argument a) (ConstantInt w 5),
       BinaryOperator 2 Sub (Inst 1) (ConstantInt w 5),
       OtherInst 3 1 [Inst 2]]]
   = Some (True,
     [[BinaryOperator 1 Add (Argument a) (ConstantInt w 5),
       OtherInst 3 1 [Argument a]]])
   \<and> users
       [[BinaryOperator 1 Add (Argument a) (ConstantInt w 5),
         OtherInst 3 1 [Argument a]]] 1 = []"
  by (simp add: eval_simps)

subsection \<open>Powers of two and new handles\<close>

lemma pow2_power [simp]: "pow2 (2 ^ k)"
proof (induction k)
  case 0
  show ?case by (simp add: pow2.simps)
next
  case (Suc k)
  have "(2::nat) ^ Suc k \<ge> 2" by simp
  then show ?case using Suc
    by (subst pow2.simps) simp
qed

lemma pow2_imp_power: "pow2 n \<Longrightarrow> \<exists>k. n = 2 ^ k"
proof (induction n rule: pow2.induct)
  case (1 n)
  show ?case
  proof (cases "n < 2")
    case True
    with "1.prems" have "n = 2 ^ 0" by (subst (asm) pow2.simps) simp
    then show ?thesis by blast
  next
    case False
    with "1.prems" have ev: "even n" and half: "pow2 (n div 2)"
      by (subst (asm) pow2.simps, simp)+
    from "1.IH" [OF False half] obtain k where "n div 2 = 2 ^ k" by blast
    with ev have "n = 2 ^ Suc k" by auto
    then show ?thesis by blast
  qed
qed

lemma pow2_iff: "pow2 n \<longleftrightarrow> (\<exists>k. n = 2 ^ k)"
  using pow2_imp_power by auto

lemma logBase2_power [simp]: "logBase2 (2 ^ k) = k"
proof (induction k)
  case 0
  show ?case by (simp add: logBase2.simps)
next
  case (Suc k)
  have "(2::nat) ^ Suc k \<ge> 2" by simp
  then show ?case using Suc
    by (subst logBase2.simps) simp
qed

lemma ConstantInt_get_small:
  assumes "k < w" and "w < 2 ^ 24"
  shows "ConstantInt_get w (int k) = ConstantInt w k"
proof -
  have "k < 2 ^ k" by (rule less_exp)
  also have "(2::nat) ^ k \<le> 2 ^ w" using assms(1) by (simp add: power_increasing)
  finally have "k < 2 ^ w" .
  moreover have "int k < 2 ^ 64" using assms by simp
  ultimately show ?thesis
    by (simp add: ConstantInt_get_def)
qed

lemma fold_max_ge: "a \<le> fold max xs (a::nat)"
  by (induction xs arbitrary: a) (auto intro: order_trans [OF max.cobounded2])

lemma fold_max_mem: "x \<in> set xs \<Longrightarrow> x \<le> fold max xs (a::nat)"
proof (induction xs arbitrary: a)
  case Nil
  then show ?case by simp
next
  case (Cons y ys)
  show ?case
  proof (cases "x = y")
    case True
    have "y \<le> max y a" by simp
    also have "\<dots> \<le> fold max ys (max y a)" by (rule fold_max_ge)
    finally show ?thesis using True by simp
  next
    case False
    with Cons show ?thesis by simp
  qed
qed

lemma fresh_gt: "I \<in> set (concat F) \<Longrightarrow> handle I < fresh F"
  unfolding fresh_def by (simp add: fold_max_mem less_Suc_eq_le)

lemma fresh_notin: "fresh F \<notin> handle ` set (concat F)"
  using fresh_gt by fastforce

subsection \<open>Redirecting uses and inserting instructions\<close>

lemma subst_inst_id: "Inst n \<notin> set (operands I) \<Longrightarrow> subst_inst n v I = I"
  by (cases I) (auto simp: subst_val_def intro!: map_idI)

lemma uses_subst_inst:
  "v \<noteq> Inst n \<Longrightarrow> filter (\<lambda>u. u = Inst n) (operands (subst_inst n v I)) = []"
  by (cases I) (auto simp: subst_val_def filter_empty_conv)

lemma users_redirect: "v \<noteq> Inst n \<Longrightarrow> users (redirect n v F) n = []"
  by (simp add: users_def redirect_def uses_subst_inst)

lemma splice_Nil: "splice F b i [] = F"
  by (simp add: splice_def)

lemma splice_length [simp]: "length (splice F b i news) = length F"
  by (simp add: splice_def)

lemma splice_nth:
  "b < length F \<Longrightarrow> splice F b i news ! b = take (Suc i) (F ! b) @ news @ drop (Suc i) (F ! b)"
  by (simp add: splice_def)

lemma insertAfter_splice: "insertAfter b i new F = splice F b i [new]"
  by (simp add: insertAfter_def splice_def)

lemma insertAfter_twice:
  "b < length F \<Longrightarrow> i < length (F ! b) \<Longrightarrow>
   insertAfter b (Suc i) new2 (insertAfter b i new F) = splice F b i [new, new2]"
  by (simp add: insertAfter_def splice_def min_def take_Suc_conv_app_nth)

lemma rauw_redirect: "v \<noteq> Inst n \<Longrightarrow> replaceAllUsesWith n v F = Some (redirect n v F)"
  by (simp add: replaceAllUsesWith_def redirect_def)

lemma set_concat_splice:
  assumes b: "b < length F"
  shows "set (concat (splice F b i news)) = set (concat F) \<union> set news"
proof -
  let ?blk = "take (Suc i) (F ! b) @ news @ drop (Suc i) (F ! b)"
  have blk: "set ?blk = set (F ! b) \<union> set news"
    using set_append [of "take (Suc i) (F ! b)" "drop (Suc i) (F ! b)"] by auto
  have F: "concat F = concat (take b F) @ F ! b @ concat (drop (Suc b) F)"
    using id_take_nth_drop [OF b] by (metis concat.simps(2) concat_append)
  have "concat (splice F b i news) = concat (take b F) @ ?blk @ concat (drop (Suc b) F)"
    using b by (simp add: splice_def upd_conv_take_nth_drop)
  then have "set (concat (splice F b i news))
      = set (concat (take b F)) \<union> set ?blk \<union> set (concat (drop (Suc b) F))"
    by (simp only: set_append Un_assoc)
  also have "\<dots> = set (concat (take b F)) \<union> set (F ! b) \<union> set (concat (drop (Suc b) F)) \<union> set news"
    unfolding blk by blast
  also have "set (concat (take b F)) \<union> set (F ! b) \<union> set (concat (drop (Suc b) F)) = set (concat F)"
    using arg_cong [OF F, of set] by (simp only: set_append Un_assoc)
  finally show ?thesis .
qed

lemma fold_max_Max: "fold max xs (a::nat) = Max (insert a (set xs))"
  using Max.set_eq_fold [of a xs] by simp

lemma fresh_splice_one:
  assumes "b < length F" and "handle new = fresh F"
  shows "fresh (splice F b i [new]) = Suc (fresh F)"
proof -
  let ?H = "handle ` set (concat F)"
  have "handle ` set (concat (splice F b i [new])) = insert (fresh F) ?H"
    by (simp only: set_concat_splice [OF assms(1)]) (simp add: assms(2))
  then have "fresh (splice F b i [new]) = Suc (Max (insert 0 (insert (fresh F) ?H)))"
    by (simp add: fresh_def fold_max_Max)
  also have "Max (insert 0 (insert (fresh F) ?H)) = fresh F"
  proof (rule Max_eqI)
    show "finite (insert 0 (insert (fresh F) ?H))" by simp
    show "fresh F \<in> insert 0 (insert (fresh F) ?H)" by simp
    fix y assume "y \<in> insert 0 (insert (fresh F) ?H)"
    then consider "y = 0" | "y = fresh F" | I where "I \<in> set (concat F)" "y = handle I"
      by blast
    then show "y \<le> fresh F"
    proof cases
      case 3
      then show ?thesis using fresh_gt [of I F] by simp
    qed simp_all
  qed
  finally show ?thesis .
qed

lemma nth_mem_concat: "b < length F \<Longrightarrow> i < length (F ! b) \<Longrightarrow> F ! b ! i \<in> set (concat F)"
  by (metis nth_mem set_concat UN_I)

lemma takes_all_usesI:
  assumes b: "b < length F" and i: "i < length (F ! b)"
    and v: "v \<noteq> Inst n"
    and self: "Inst n \<notin> set (operands (F ! b ! i))"
    and news: "\<forall>I \<in> set news. Inst n \<notin> set (operands I)"
  shows "takes_all_uses F b i n news v (redirect n v (splice F b i news))"
proof -
  let ?F' = "redirect n v (splice F b i news)"
  have blk: "?F' ! b = map (subst_inst n v) (take (Suc i) (F ! b))
      @ map (subst_inst n v) news @ map (subst_inst n v) (drop (Suc i) (F ! b))"
    using b by (simp add: redirect_def splice_nth)
  have news_id: "map (subst_inst n v) news = news"
    using news by (simp add: map_idI subst_inst_id)
  have len: "length (map (subst_inst n v) (take (Suc i) (F ! b))) = Suc i"
    using i by simp
  have "?F' ! b ! i = subst_inst n v (F ! b ! i)"
    using i by (simp add: blk nth_append)
  then have at_i: "?F' ! b ! i = F ! b ! i"
    using self by (simp add: subst_inst_id)
  have "drop (Suc i) (?F' ! b) = news @ map (subst_inst n v) (drop (Suc i) (F ! b))"
    using len by (simp add: blk news_id)
  then have "take (length news) (drop (Suc i) (?F' ! b)) = news"
    by simp
  with at_i users_redirect [OF v] show ?thesis
    by (simp add: takes_all_uses_def)
qed

lemma power2_less_width: "(2::nat) ^ k < 2 ^ w \<Longrightarrow> k < w"
  by (simp add: power_strict_increasing_iff)

lemma one_mod_width: "0 < w \<Longrightarrow> (1::nat) mod 2 ^ w = 1"
  by (cases w) simp_all

lemma shiftCount_eq:
  assumes "v = 2 ^ k" and "v < 2 ^ w" and "w < 2 ^ 24"
  shows "ConstantInt_get w (exactLogBase2 (w, v)) = ConstantInt w k"
proof -
  from assms(1,2) have "k < w" by (simp add: power_strict_increasing_iff)
  with assms show ?thesis
    by (simp add: exactLogBase2_def isPowerOf2_def ConstantInt_get_small)
qed

lemma classified_operands:
  assumes "getConstantFromInstruction (BinaryOperator n opc p q) = Some (C, x)"
  shows "set (operands (BinaryOperator n opc p q)) = {ConstantInt (fst C) (snd C), x}"
  using assms by (cases "(BinaryOperator n opc p q)" rule: getConstantFromInstruction.cases) auto

lemma handle_less_fresh:
  "b < length F \<Longrightarrow> i < length (F ! b) \<Longrightarrow> handle (F ! b ! i) < fresh F"
  by (rule fresh_gt) (rule nth_mem_concat)

lemma not_pow2_iff: "(\<forall>j. n \<noteq> 2 ^ j) \<longleftrightarrow> \<not> pow2 n"
  by (auto simp: pow2_iff)

subsection \<open>The rewrites of algebraicIdentity_stregthReduction\<close>

text \<open>
  The body of the loop at an Add: with the classification (constant 0, \<open>x\<close>) all uses go
  to \<open>x\<close>; with another constant, or with no constant operand, nothing changes.
\<close>

lemma asr_inst_add:
  assumes b: "b < length F" and i: "i < length (F ! b)"
    and at: "F ! b ! i = BinaryOperator n Add p q"
  shows
    "(getConstantFromInstruction (BinaryOperator n Add p q) = Some ((w, 0), x) \<and> x \<noteq> Inst n
        \<longrightarrow> (\<exists>F'. asr_inst F b i (F ! b ! i) = Some F' \<and> takes_all_uses F b i n [] x F'))
     \<and> (getConstantFromInstruction (BinaryOperator n Add p q) = Some ((w, c), x) \<and> c \<noteq> 0
        \<longrightarrow> asr_inst F b i (F ! b ! i) = Some F)
     \<and> (getConstantFromInstruction (BinaryOperator n Add p q) = None
        \<longrightarrow> asr_inst F b i (F ! b ! i) = Some F)"
proof (intro conjI impI)
  assume h: "getConstantFromInstruction (BinaryOperator n Add p q) = Some ((w, 0), x) \<and> x \<noteq> Inst n"
  then have cls: "getConstantFromInstruction (BinaryOperator n Add p q) = Some ((w, 0), x)"
    and x: "x \<noteq> Inst n" by simp_all
  have self: "Inst n \<notin> set (operands (F ! b ! i))"
    using classified_operands [OF cls] x at by auto
  have "asr_inst F b i (F ! b ! i) = Some (redirect n x F)"
    using at cls x by (simp add: rauw_redirect)
  with takes_all_usesI [OF b i x self, of "[]"]
  show "\<exists>F'. asr_inst F b i (F ! b ! i) = Some F' \<and> takes_all_uses F b i n [] x F'"
    by (simp add: splice_Nil)
next
  assume "getConstantFromInstruction (BinaryOperator n Add p q) = Some ((w, c), x) \<and> c \<noteq> 0"
  with at show "asr_inst F b i (F ! b ! i) = Some F"
    by simp
next
  assume "getConstantFromInstruction (BinaryOperator n Add p q) = None"
  with at show "asr_inst F b i (F ! b ! i) = Some F"
    by simp
qed

text \<open>
  The body of the loop at a Mul classified as (constant \<open>c\<close> of width \<open>w\<close>, \<open>x\<close>). The
  cases are tried in the order of the source, so each carries the negation of the ones
  before it. \<open>c - 1\<close> and \<open>c + 1\<close> are the constant's own arithmetic, modulo \<open>2 ^ w\<close>.
\<close>

lemma asr_inst_mul:
  assumes b: "b < length F" and i: "i < length (F ! b)"
    and at: "F ! b ! i = BinaryOperator n Mul p q"
    and cls: "getConstantFromInstruction (BinaryOperator n Mul p q) = Some ((w, c), x)"
    and w: "0 < w" "w < 2 ^ 24" and c: "c < 2 ^ w"
    and x: "x \<noteq> Inst n"
  shows
    "(c = 1 \<longrightarrow>
        (\<exists>F'. asr_inst F b i (F ! b ! i) = Some F' \<and> takes_all_uses F b i n [] x F'))
     \<and> (c \<noteq> 1 \<and> c = 2 ^ k \<longrightarrow>
        (\<exists>F'. asr_inst F b i (F ! b ! i) = Some F' \<and>
           takes_all_uses F b i n
             [BinaryOperator (fresh F) Shl x (ConstantInt w k)] (Inst (fresh F)) F'))
     \<and> (c \<noteq> 1 \<and> (\<forall>j. c \<noteq> 2 ^ j) \<and> (c + 2 ^ w - 1) mod 2 ^ w = 2 ^ k \<longrightarrow>
        (\<exists>F'. asr_inst F b i (F ! b ! i) = Some F' \<and>
           takes_all_uses F b i n
             [BinaryOperator (fresh F) Shl x (ConstantInt w k),
              BinaryOperator (Suc (fresh F)) Add (Inst (fresh F)) x] (Inst (Suc (fresh F))) F'))
     \<and> (c \<noteq> 1 \<and> (\<forall>j. c \<noteq> 2 ^ j) \<and> (\<forall>j. (c + 2 ^ w - 1) mod 2 ^ w \<noteq> 2 ^ j)
          \<and> (c + 1) mod 2 ^ w = 2 ^ k \<longrightarrow>
        (\<exists>F'. asr_inst F b i (F ! b ! i) = Some F' \<and>
           takes_all_uses F b i n
             [BinaryOperator (fresh F) Shl x (ConstantInt w k),
              BinaryOperator (Suc (fresh F)) Sub (Inst (fresh F)) x] (Inst (Suc (fresh F))) F'))
     \<and> (c \<noteq> 1 \<and> (\<forall>j. c \<noteq> 2 ^ j) \<and> (\<forall>j. (c + 2 ^ w - 1) mod 2 ^ w \<noteq> 2 ^ j)
          \<and> (\<forall>j. (c + 1) mod 2 ^ w \<noteq> 2 ^ j) \<longrightarrow>
        asr_inst F b i (F ! b ! i) = Some F)
     \<and> fresh F \<notin> handle ` set (concat F)
     \<and> Suc (fresh F) \<notin> handle ` set (concat F)"
proof -
  let ?s = "fresh F"
  have step: "asr_inst F b i (F ! b ! i) = asr_mul F b i n (w, c) x"
    using at cls by simp
  have n: "n < ?s"
    using handle_less_fresh [OF b i] at by simp
  have self: "Inst n \<notin> set (operands (F ! b ! i))"
    using classified_operands [OF cls] x at by auto
  have sub1: "apint_sub (w, c) (Suc 0) = (w, (c + 2 ^ w - Suc 0) mod 2 ^ w)"
    using w one_mod_width [of w] by (simp add: apint_sub_def)
  have add1: "apint_add (w, c) (Suc 0) = (w, Suc c mod 2 ^ w)"
    by (simp add: apint_add_def)
  have fresh1: "\<And>I. handle I = ?s \<Longrightarrow> fresh (insertAfter b i I F) = Suc ?s"
    using b by (simp add: insertAfter_splice fresh_splice_one)
  have one: "c = 1 \<Longrightarrow>
      \<exists>F'. asr_inst F b i (F ! b ! i) = Some F' \<and> takes_all_uses F b i n [] x F'"
    using takes_all_usesI [OF b i x self, of "[]"]
    by (simp add: step asr_mul_def rauw_redirect [OF x] splice_Nil)
  have shl: "\<exists>F'. asr_inst F b i (F ! b ! i) = Some F' \<and>
             takes_all_uses F b i n [BinaryOperator ?s Shl x (ConstantInt w k)] (Inst ?s) F'"
    if "c \<noteq> 1" "c = 2 ^ k"
  proof -
    have "asr_inst F b i (F ! b ! i) = Some (redirect n (Inst ?s)
        (splice F b i [BinaryOperator ?s Shl x (ConstantInt w k)]))"
      using that n shiftCount_eq [OF that(2) c w(2)]
      by (simp add: step asr_mul_def isPowerOf2_def Let_def insertAfter_splice rauw_redirect)
    moreover have "takes_all_uses F b i n [BinaryOperator ?s Shl x (ConstantInt w k)] (Inst ?s)
        (redirect n (Inst ?s) (splice F b i [BinaryOperator ?s Shl x (ConstantInt w k)]))"
      using n x self by (intro takes_all_usesI [OF b i]) auto
    ultimately show ?thesis by blast
  qed
  have add: "\<exists>F'. asr_inst F b i (F ! b ! i) = Some F' \<and>
             takes_all_uses F b i n
               [BinaryOperator ?s Shl x (ConstantInt w k),
                BinaryOperator (Suc ?s) Add (Inst ?s) x] (Inst (Suc ?s)) F'"
    if "c \<noteq> 1" "\<forall>j. c \<noteq> 2 ^ j" "(c + 2 ^ w - 1) mod 2 ^ w = 2 ^ k"
  proof -
    let ?news = "[BinaryOperator ?s Shl x (ConstantInt w k),
                  BinaryOperator (Suc ?s) Add (Inst ?s) x]"
    have lt: "(c + 2 ^ w - 1) mod 2 ^ w < (2::nat) ^ w" by simp
    have "asr_inst F b i (F ! b ! i) = Some (redirect n (Inst (Suc ?s)) (splice F b i ?news))"
      using that n shiftCount_eq [OF that(3) lt w(2)] b i
      by (simp add: step asr_mul_def isPowerOf2_def pow2_iff sub1 Let_def
          insertAfter_twice rauw_redirect fresh1)
    moreover have "takes_all_uses F b i n ?news (Inst (Suc ?s))
        (redirect n (Inst (Suc ?s)) (splice F b i ?news))"
      using n x self by (intro takes_all_usesI [OF b i]) auto
    ultimately show ?thesis by blast
  qed
  have sub: "\<exists>F'. asr_inst F b i (F ! b ! i) = Some F' \<and>
             takes_all_uses F b i n
               [BinaryOperator ?s Shl x (ConstantInt w k),
                BinaryOperator (Suc ?s) Sub (Inst ?s) x] (Inst (Suc ?s)) F'"
    if "c \<noteq> 1" "\<forall>j. c \<noteq> 2 ^ j" "\<forall>j. (c + 2 ^ w - 1) mod 2 ^ w \<noteq> 2 ^ j"
      "(c + 1) mod 2 ^ w = 2 ^ k"
  proof -
    let ?news = "[BinaryOperator ?s Shl x (ConstantInt w k),
                  BinaryOperator (Suc ?s) Sub (Inst ?s) x]"
    have lt: "(c + 1) mod 2 ^ w < (2::nat) ^ w" by simp
    have "asr_inst F b i (F ! b ! i) = Some (redirect n (Inst (Suc ?s)) (splice F b i ?news))"
      using that n shiftCount_eq [OF that(4) lt w(2)] b i
      by (simp add: step asr_mul_def isPowerOf2_def pow2_iff sub1 add1 Let_def
          insertAfter_twice rauw_redirect fresh1)
    moreover have "takes_all_uses F b i n ?news (Inst (Suc ?s))
        (redirect n (Inst (Suc ?s)) (splice F b i ?news))"
      using n x self by (intro takes_all_usesI [OF b i]) auto
    ultimately show ?thesis by blast
  qed
  have none: "asr_inst F b i (F ! b ! i) = Some F"
    if "c \<noteq> 1" "\<forall>j. c \<noteq> 2 ^ j" "\<forall>j. (c + 2 ^ w - 1) mod 2 ^ w \<noteq> 2 ^ j"
      "\<forall>j. (c + 1) mod 2 ^ w \<noteq> 2 ^ j"
    using that by (simp add: step asr_mul_def isPowerOf2_def pow2_iff sub1 add1)
  have "Suc ?s \<notin> handle ` set (concat F)"
    using fresh_gt [of _ F] by fastforce
  with one shl add sub none fresh_notin [of F] show ?thesis
    by blast
qed

text \<open>
  The body of the loop at an SDiv: only operand 1 is looked at.
\<close>

lemma asr_inst_sdiv:
  assumes b: "b < length F" and i: "i < length (F ! b)"
    and at: "F ! b ! i = BinaryOperator n SDiv p q"
  shows
    "((\<forall>w' c'. q \<noteq> ConstantInt w' c') \<longrightarrow> asr_inst F b i (F ! b ! i) = Some F)
     \<and> (q = ConstantInt w 1 \<and> p \<noteq> Inst n \<longrightarrow>
        (\<exists>F'. asr_inst F b i (F ! b ! i) = Some F' \<and> takes_all_uses F b i n [] p F'))
     \<and> (q = ConstantInt w c \<and> c \<noteq> 1 \<and> c = 2 ^ k \<and> c < 2 ^ w \<and> w < 2 ^ 24
          \<and> p \<noteq> Inst n \<longrightarrow>
        (\<exists>F'. asr_inst F b i (F ! b ! i) = Some F' \<and>
           takes_all_uses F b i n
             [BinaryOperator (fresh F) LShr p (ConstantInt w k)] (Inst (fresh F)) F'))
     \<and> (q = ConstantInt w c \<and> c \<noteq> 1 \<and> (\<forall>j. c \<noteq> 2 ^ j) \<longrightarrow>
        asr_inst F b i (F ! b ! i) = Some F)
     \<and> fresh F \<notin> handle ` set (concat F)"
proof (intro conjI impI)
  assume "\<forall>w' c'. q \<noteq> ConstantInt w' c'"
  with at show "asr_inst F b i (F ! b ! i) = Some F"
    by (cases q) auto
next
  assume h: "q = ConstantInt w 1 \<and> p \<noteq> Inst n"
  then have p: "p \<noteq> Inst n" and self: "Inst n \<notin> set (operands (F ! b ! i))"
    using at by auto
  have "asr_inst F b i (F ! b ! i) = Some (redirect n p F)"
    using at h by (simp add: asr_sdiv_def rauw_redirect)
  with takes_all_usesI [OF b i p self, of "[]"]
  show "\<exists>F'. asr_inst F b i (F ! b ! i) = Some F' \<and> takes_all_uses F b i n [] p F'"
    by (simp add: splice_Nil)
next
  let ?s = "fresh F"
  assume h: "q = ConstantInt w c \<and> c \<noteq> 1 \<and> c = 2 ^ k \<and> c < 2 ^ w \<and> w < 2 ^ 24 \<and> p \<noteq> Inst n"
  then have p: "p \<noteq> Inst n" and self: "Inst n \<notin> set (operands (F ! b ! i))"
    using at by auto
  have n: "n < ?s"
    using handle_less_fresh [OF b i] at by simp
  from h have ck: "c = 2 ^ k" and c: "c < 2 ^ w" and w: "w < 2 ^ 24"
    and q: "q = ConstantInt w c" and c1: "c \<noteq> 1" by blast+
  have "asr_inst F b i (F ! b ! i) = Some (redirect n (Inst ?s)
      (splice F b i [BinaryOperator ?s LShr p (ConstantInt w k)]))"
    using at q c1 ck n shiftCount_eq [OF ck c w]
    by (simp add: asr_sdiv_def isPowerOf2_def Let_def insertAfter_splice rauw_redirect)
  moreover have "takes_all_uses F b i n [BinaryOperator ?s LShr p (ConstantInt w k)] (Inst ?s)
      (redirect n (Inst ?s) (splice F b i [BinaryOperator ?s LShr p (ConstantInt w k)]))"
    using n p self by (intro takes_all_usesI [OF b i]) auto
  ultimately show "\<exists>F'. asr_inst F b i (F ! b ! i) = Some F' \<and>
      takes_all_uses F b i n [BinaryOperator ?s LShr p (ConstantInt w k)] (Inst ?s) F'"
    by blast
next
  assume "q = ConstantInt w c \<and> c \<noteq> 1 \<and> (\<forall>j. c \<noteq> 2 ^ j)"
  with at show "asr_inst F b i (F ! b ! i) = Some F"
    by (simp add: asr_sdiv_def isPowerOf2_def pow2_iff)
next
  show "fresh F \<notin> handle ` set (concat F)"
    by (rule fresh_notin)
qed

subsection \<open>The sweep of deadCodeElimination\<close>

lemma dce_loop_erase:
  "b < length F \<Longrightarrow> i < length (F ! b) \<Longrightarrow>
   hasNUses0 F (handle (F ! b ! i)) \<and> isBinaryOp (F ! b ! i) \<Longrightarrow>
   dce_loop F b i = dce_loop (eraseFromParent b i F) b i"
  by (subst dce_loop.simps) simp

lemma dce_loop_advance:
  "b < length F \<Longrightarrow> i < length (F ! b) \<Longrightarrow>
   \<not> (hasNUses0 F (handle (F ! b ! i)) \<and> isBinaryOp (F ! b ! i)) \<Longrightarrow>
   dce_loop F b i = dce_loop F b (Suc i)"
  by (subst dce_loop.simps) auto

lemma dce_loop_done: "\<not> (b < length F \<and> i < length (F ! b)) \<Longrightarrow> dce_loop F b i = F"
  by (subst dce_loop.simps) auto

lemma sweep_reaches_result: "sweep_reaches F b G i \<Longrightarrow> dce_loop G b i = dce_loop F b 0"
  by (induction rule: sweep_reaches.induct) (simp_all add: dce_loop_erase dce_loop_advance)

lemma dce_loop_other: "b' \<noteq> b \<Longrightarrow> dce_loop F b i ! b' = F ! b'"
proof (induction F b i rule: dce_loop.induct)
  case (1 F b i)
  then show ?case
    by (subst dce_loop.simps) (simp add: eraseFromParent_nth_other)
qed

lemma dce_loop_prefix: "take i (dce_loop F b i ! b) = take i (F ! b)"
proof (induction F b i rule: dce_loop.induct)
  case (1 F b i)
  show ?case
  proof (cases "b < length F \<and> i < length (F ! b)")
    case False
    then show ?thesis by (simp add: dce_loop_done)
  next
    case True
    show ?thesis
    proof (cases "hasNUses0 F (handle (F ! b ! i)) \<and> isBinaryOp (F ! b ! i)")
      case dead: True
      from "1.IH"(1) [OF True dead] True dead show ?thesis
        by (simp add: dce_loop_erase eraseFromParent_nth)
    next
      case live: False
      from "1.IH"(2) [OF True live]
      have "take i (take (Suc i) (dce_loop F b (Suc i) ! b)) = take i (take (Suc i) (F ! b))"
        by simp
      with True live show ?thesis
        by (simp add: dce_loop_advance)
    qed
  qed
qed

lemma subseq_erase: "subseq (take i xs @ drop (Suc i) xs) xs"
proof -
  have tl: "subseq (tl ys) ys" for ys :: "'a list"
    by (cases ys) auto
  have "drop (Suc i) xs = tl (drop i xs)"
    by (simp add: drop_Suc tl_drop)
  then have "subseq (drop (Suc i) xs) (drop i xs)"
    using tl [of "drop i xs"] by simp
  then have "subseq (take i xs @ drop (Suc i) xs) (take i xs @ drop i xs)"
    by (intro list_emb_append_mono subseq_order.refl)
  then show ?thesis by simp
qed

lemma dce_loop_subseq: "b < length F \<Longrightarrow> subseq (dce_loop F b i ! b) (F ! b)"
proof (induction F b i rule: dce_loop.induct)
  case (1 F b i)
  show ?case
  proof (cases "b < length F \<and> i < length (F ! b)")
    case False
    then show ?thesis by (simp add: dce_loop_done)
  next
    case True
    show ?thesis
    proof (cases "hasNUses0 F (handle (F ! b ! i)) \<and> isBinaryOp (F ! b ! i)")
      case dead: True
      from "1.IH"(1) [OF True dead] True
      have "subseq (dce_loop (eraseFromParent b i F) b i ! b) (take i (F ! b) @ drop (Suc i) (F ! b))"
        by (simp add: eraseFromParent_nth)
      then have "subseq (dce_loop (eraseFromParent b i F) b i ! b) (F ! b)"
        using subseq_erase [of i "F ! b"] by (rule subseq_order.trans)
      with True dead show ?thesis
        by (simp add: dce_loop_erase)
    next
      case live: False
      from "1.IH"(2) [OF True live] True live show ?thesis
        by (simp add: dce_loop_advance)
    qed
  qed
qed

lemma users_Nil_iff:
  "users F n = [] \<longleftrightarrow> (\<forall>I \<in> set (concat F). Inst n \<notin> set (operands I))"
  by (auto simp: users_def filter_empty_conv)

lemma set_concat_erase: "set (concat (eraseFromParent b i F)) \<subseteq> set (concat F)"
proof (cases "b < length F")
  case False
  then have "eraseFromParent b i F = F" by (simp add: eraseFromParent_def list_update_beyond)
  then show ?thesis by simp
next
  case True
  show ?thesis
  proof
    fix I assume "I \<in> set (concat (eraseFromParent b i F))"
    then obtain blk where blk: "blk \<in> set (eraseFromParent b i F)" and I: "I \<in> set blk"
      by auto
    from blk have "blk \<in> insert (take i (F ! b) @ drop (Suc i) (F ! b)) (set F)"
      unfolding eraseFromParent_def by (rule subsetD [OF set_update_subset_insert])
    then consider "blk = take i (F ! b) @ drop (Suc i) (F ! b)" | "blk \<in> set F"
      by blast
    then show "I \<in> set (concat F)"
    proof cases
      case 1
      with I have "I \<in> set (F ! b)"
        by (auto dest: in_set_takeD in_set_dropD)
      moreover have "F ! b \<in> set F" using True by simp
      ultimately show ?thesis by auto
    next
      case 2
      with I show ?thesis by auto
    qed
  qed
qed

lemma hasNUses0_erase: "hasNUses0 F n \<Longrightarrow> hasNUses0 (eraseFromParent b i F) n"
  unfolding hasNUses0_def users_Nil_iff
  by (intro ballI) (meson subsetD [OF set_concat_erase])

lemma dce_loop_keeps_position:
  assumes "b < length F" and "i < length (F ! b)"
    and "\<not> (hasNUses0 F (handle (F ! b ! i)) \<and> isBinaryOp (F ! b ! i))"
  shows "take (Suc i) (dce_loop F b i ! b) = take (Suc i) (F ! b)"
  using assms dce_loop_prefix [of "Suc i" F b] by (simp add: dce_loop_advance)

lemma take_Suc_eq_nth:
  assumes "take (Suc i) xs = take (Suc i) ys" and "i < length ys"
  shows "i < length xs \<and> xs ! i = ys ! i"
proof -
  have "length (take (Suc i) xs) = Suc i" using assms by simp
  then have len: "i < length xs" by simp
  have "xs ! i = take (Suc i) xs ! i" by simp
  also have "\<dots> = ys ! i" using assms by simp
  finally show ?thesis using len by simp
qed

lemma dce_loop_rest: "b < length F \<Longrightarrow> set (drop i (dce_loop F b i ! b)) \<subseteq> set (drop i (F ! b))"
proof (induction F b i rule: dce_loop.induct)
  case (1 F b i)
  show ?case
  proof (cases "b < length F \<and> i < length (F ! b)")
    case False
    then show ?thesis by (simp add: dce_loop_done)
  next
    case True
    show ?thesis
    proof (cases "hasNUses0 F (handle (F ! b ! i)) \<and> isBinaryOp (F ! b ! i)")
      case dead: True
      from "1.IH"(1) [OF True dead] True
      have "set (drop i (dce_loop (eraseFromParent b i F) b i ! b)) \<subseteq> set (drop (Suc i) (F ! b))"
        by (simp add: eraseFromParent_nth)
      also have "\<dots> \<subseteq> set (drop i (F ! b))"
        by (simp add: set_drop_subset_set_drop)
      finally show ?thesis using True dead by (simp add: dce_loop_erase)
    next
      case live: False
      let ?R = "dce_loop F b (Suc i) ! b"
      from True live have keep: "take (Suc i) (dce_loop F b i ! b) = take (Suc i) (F ! b)"
        by (intro dce_loop_keeps_position) simp_all
      with True live have at: "i < length ?R \<and> ?R ! i = F ! b ! i"
        by (intro take_Suc_eq_nth) (simp_all add: dce_loop_advance)
      from "1.IH"(2) [OF True live] True
      have rest: "set (drop (Suc i) ?R) \<subseteq> set (drop (Suc i) (F ! b))" by simp
      have "drop i ?R = ?R ! i # drop (Suc i) ?R"
        using at [THEN conjunct1] by (simp add: Cons_nth_drop_Suc)
      moreover have "drop i (F ! b) = F ! b ! i # drop (Suc i) (F ! b)"
        using True by (simp add: Cons_nth_drop_Suc)
      ultimately have "set (drop i ?R) \<subseteq> set (drop i (F ! b))"
        using at rest by auto
      with True live show ?thesis by (simp add: dce_loop_advance)
    qed
  qed
qed

lemma dce_loop_dead_removed:
  "b < length F \<Longrightarrow> J \<in> set (drop i (F ! b)) \<Longrightarrow> isBinaryOp J \<Longrightarrow> hasNUses0 F (handle J) \<Longrightarrow>
   J \<notin> set (drop i (dce_loop F b i ! b))"
proof (induction F b i rule: dce_loop.induct)
  case (1 F b i)
  from "1.prems"(2) have i: "i < length (F ! b)"
    by (cases "i < length (F ! b)") auto
  with "1.prems"(1) have True: "b < length F \<and> i < length (F ! b)" by simp
  have split: "drop i (F ! b) = F ! b ! i # drop (Suc i) (F ! b)"
    using i by (simp add: Cons_nth_drop_Suc)
  show ?case
  proof (cases "hasNUses0 F (handle (F ! b ! i)) \<and> isBinaryOp (F ! b ! i)")
    case dead: True
    let ?E = "eraseFromParent b i F"
    have blk: "drop i (?E ! b) = drop (Suc i) (F ! b)"
      using True by (simp add: eraseFromParent_nth)
    have "J \<notin> set (drop i (dce_loop ?E b i ! b))"
    proof (cases "J \<in> set (drop (Suc i) (F ! b))")
      case True
      with "1.IH"(1) [OF \<open>b < length F \<and> i < length (F ! b)\<close> dead] "1.prems" blk
      show ?thesis by (simp add: hasNUses0_erase)
    next
      case False
      with dce_loop_rest [of b ?E i] "1.prems"(1) blk show ?thesis by auto
    qed
    with True dead show ?thesis by (simp add: dce_loop_erase)
  next
    case live: False
    let ?R = "dce_loop F b (Suc i) ! b"
    from live "1.prems" have neq: "J \<noteq> F ! b ! i" by auto
    with "1.prems"(2) split have "J \<in> set (drop (Suc i) (F ! b))" by simp
    from "1.IH"(2) [OF True live "1.prems"(1) this "1.prems"(3,4)]
    have rest: "J \<notin> set (drop (Suc i) ?R)" .
    from True live have "take (Suc i) (dce_loop F b i ! b) = take (Suc i) (F ! b)"
      by (intro dce_loop_keeps_position) simp_all
    with True live have at: "i < length ?R \<and> ?R ! i = F ! b ! i"
      by (intro take_Suc_eq_nth) (simp_all add: dce_loop_advance)
    then have "drop i ?R = F ! b ! i # drop (Suc i) ?R"
      using Cons_nth_drop_Suc [of i ?R] by simp
    with rest neq have "J \<notin> set (drop i ?R)" by simp
    with True live show ?thesis by (simp add: dce_loop_advance)
  qed
qed
lemma sweep_reaches_length: "sweep_reaches F b G i \<Longrightarrow> length G = length F"
  by (induction rule: sweep_reaches.induct) simp_all

text \<open>
  C7. \<open>deadCodeElimination\<close> is one sweep over the block \<open>b\<close>. Every binary operator of
  the block that has no use in the function handed to the pass is absent from the block
  after it. An instruction that has a use at the moment the sweep is at it stays where it
  is, whatever the sweep erases later. The block after the pass is a subsequence of the
  block before, so the survivors keep their order; the other blocks and the number of
  blocks are untouched.
\<close>

theorem dead_code_sweep:
  assumes b: "b < length F"
  shows
    "(\<forall>J \<in> set (F ! b). isBinaryOp J \<and> hasNUses0 F (handle J) \<longrightarrow>
        J \<notin> set (snd (deadCodeElimination F b) ! b))
     \<and> (\<forall>G i. sweep_reaches F b G i \<and> i < length (G ! b)
            \<and> \<not> hasNUses0 G (handle (G ! b ! i)) \<longrightarrow>
          i < length (snd (deadCodeElimination F b) ! b)
          \<and> snd (deadCodeElimination F b) ! b ! i = G ! b ! i)
     \<and> subseq (snd (deadCodeElimination F b) ! b) (F ! b)
     \<and> (\<forall>b'. b' \<noteq> b \<longrightarrow> snd (deadCodeElimination F b) ! b' = F ! b')
     \<and> length (snd (deadCodeElimination F b)) = length F"
proof -
  let ?R = "dce_loop F b 0"
  have R: "snd (deadCodeElimination F b) = ?R"
    by (simp add: deadCodeElimination_def)
  have dead: "\<forall>J \<in> set (F ! b). isBinaryOp J \<and> hasNUses0 F (handle J) \<longrightarrow> J \<notin> set (?R ! b)"
    using dce_loop_dead_removed [OF b, of _ 0] by auto
  have live: "i < length (?R ! b) \<and> ?R ! b ! i = G ! b ! i"
    if reach: "sweep_reaches F b G i" and i: "i < length (G ! b)"
      and used: "\<not> hasNUses0 G (handle (G ! b ! i))" for G i
  proof -
    have bG: "b < length G"
      using sweep_reaches_length [OF reach] b by simp
    have "take (Suc i) (dce_loop G b i ! b) = take (Suc i) (G ! b)"
      using bG i used by (intro dce_loop_keeps_position) simp_all
    then have "take (Suc i) (?R ! b) = take (Suc i) (G ! b)"
      by (simp add: sweep_reaches_result [OF reach])
    then show ?thesis using i by (rule take_Suc_eq_nth)
  qed
  from dead live dce_loop_subseq [OF b, of 0] dce_loop_other [of _ b F 0] show ?thesis
    unfolding R by (intro conjI) (blast, blast, assumption, blast, simp)
qed

theorem dead_code_sweep_witness:
  "snd (deadCodeElimination
     [[BinaryOperator 1 Add (Argument 0) (ConstantInt 32 5),
       BinaryOperator 2 Sub (Inst 1) (ConstantInt 32 5),
       OtherInst 3 1 [Argument 0]]] 0)
     = [[BinaryOperator 1 Add (Argument 0) (ConstantInt 32 5), OtherInst 3 1 [Argument 0]]]
   \<and> hasNUses0
     [[BinaryOperator 1 Add (Argument 0) (ConstantInt 32 5),
       BinaryOperator 2 Sub (Inst 1) (ConstantInt 32 5),
       OtherInst 3 1 [Argument 0]]] 2
   \<and> \<not> hasNUses0
     [[BinaryOperator 1 Add (Argument 0) (ConstantInt 32 5),
       BinaryOperator 2 Sub (Inst 1) (ConstantInt 32 5),
       OtherInst 3 1 [Argument 0]]] 1
   \<and> BinaryOperator 2 Sub (Inst 1) (ConstantInt 32 5) \<notin> set (snd (deadCodeElimination
     [[BinaryOperator 1 Add (Argument 0) (ConstantInt 32 5),
       BinaryOperator 2 Sub (Inst 1) (ConstantInt 32 5),
       OtherInst 3 1 [Argument 0]]] 0) ! 0)
   \<and> snd (deadCodeElimination
     [[BinaryOperator 1 Add (Argument 0) (ConstantInt 32 5),
       BinaryOperator 2 Sub (Inst 1) (ConstantInt 32 5),
       OtherInst 3 1 [Argument 0]]] 0) ! 0 ! 0
     = BinaryOperator 1 Add (Argument 0) (ConstantInt 32 5)"
proof -
  let ?F = "[[BinaryOperator 1 Add (Argument 0) (ConstantInt 32 5),
       BinaryOperator 2 Sub (Inst 1) (ConstantInt 32 5),
       OtherInst 3 1 [Argument 0]]]"
  have b: "0 < length ?F" by simp
  have dead: "hasNUses0 ?F 2" and used: "\<not> hasNUses0 ?F 1"
    by (simp_all add: hasNUses0_def users_def)
  note sweep = dead_code_sweep [OF b]
  from sweep have "BinaryOperator 2 Sub (Inst 1) (ConstantInt 32 5)
      \<notin> set (snd (deadCodeElimination ?F 0) ! 0)"
    using dead by simp
  moreover from sweep sweep_reaches.start [of ?F 0] used
  have "snd (deadCodeElimination ?F 0) ! 0 ! 0 = BinaryOperator 1 Add (Argument 0) (ConstantInt 32 5)"
    by (elim conjE allE [of _ ?F] allE [of _ "0::nat"]) simp
  moreover have "snd (deadCodeElimination ?F 0)
      = [[BinaryOperator 1 Add (Argument 0) (ConstantInt 32 5), OtherInst 3 1 [Argument 0]]]"
    by (simp add: eval_simps)
  ultimately show ?thesis using dead used by simp
qed

subsection \<open>The loop over the users in multiInstructionOptimization\<close>

lemma int_widths_mem: "w' \<in> set (int_widths vs) \<longleftrightarrow> (\<exists>c. ConstantInt w' c \<in> set vs)"
  by (induction vs rule: int_widths.induct) auto

lemma users_typedD:
  assumes "users_typed F n Param w"
  shows "Param = ConstantInt w' c' \<Longrightarrow> w' = w"
    and "J \<in> set (concat F) \<Longrightarrow> isBinaryOp J \<Longrightarrow> Inst n \<in> set (operands J) \<Longrightarrow>
         ConstantInt w' c' \<in> set (operands J) \<Longrightarrow> w' = w"
proof -
  show "Param = ConstantInt w' c' \<Longrightarrow> w' = w"
    using assms by (simp add: users_typed_def)
  assume J: "J \<in> set (concat F)" "isBinaryOp J" "Inst n \<in> set (operands J)"
    and c: "ConstantInt w' c' \<in> set (operands J)"
  from assms J have "list_all (\<lambda>w'. w' = w) (int_widths (operands J))"
    unfolding users_typed_def list_all_iff by blast
  moreover from c have "w' \<in> set (int_widths (operands J))"
    unfolding int_widths_mem by blast
  ultimately show "w' = w"
    unfolding list_all_iff by blast
qed

lemma handle_subst_many [simp]: "handle (subst_many_inst D v J) = handle J"
  by (cases J) simp_all

lemma opcode_is_subst_many [simp]: "opcode_is (subst_many_inst D v J) opp = opcode_is J opp"
  by (cases J) simp_all

lemma operands_subst_many: "operands (subst_many_inst D v J) = map (subst_many D v) (operands J)"
  by (cases J) simp_all

lemma handle_subst_inst [simp]: "handle (subst_inst n v J) = handle J"
  by (cases J) simp_all

lemma redirect_many_empty [simp]: "redirect_many {} v F = F"
proof -
  have "subst_many {} v x = x" for x by (cases x) (simp_all add: subst_many_def)
  then have "subst_many_inst {} v J = J" for J by (cases J) (simp_all add: map_idI)
  then show ?thesis by (simp add: redirect_many_def map_idI)
qed

lemma subst_val_many:
  "v \<noteq> Inst u \<Longrightarrow> subst_val u v (subst_many D v x) = subst_many (insert u D) v x"
  by (cases x) (auto simp: subst_val_def subst_many_def)

lemma subst_inst_many:
  "v \<noteq> Inst u \<Longrightarrow> subst_inst u v (subst_many_inst D v J) = subst_many_inst (insert u D) v J"
  by (cases J) (simp_all add: subst_val_many)

lemma rauw_redirect_many:
  "v \<noteq> Inst u \<Longrightarrow>
   replaceAllUsesWith u v (redirect_many D v F) = Some (redirect_many (insert u D) v F)"
  by (simp add: replaceAllUsesWith_def redirect_many_def subst_inst_many)

lemma concat_redirect_many:
  "concat (redirect_many D v F) = map (subst_many_inst D v) (concat F)"
  by (simp add: redirect_many_def map_concat)

lemma find_map_option: "find P (map f xs) = map_option f (find (\<lambda>x. P (f x)) xs)"
  by (induction xs) simp_all

lemma find_SomeD: "find P xs = Some x \<Longrightarrow> x \<in> set xs \<and> P x"
  by (induction xs) (auto split: if_splits)

lemma getInst_redirect_many:
  "getInst (redirect_many D v F) u = map_option (subst_many_inst D v) (getInst F u)"
  by (simp add: getInst_def concat_redirect_many find_map_option)

lemma handle_inj:
  "distinct (map handle xs) \<Longrightarrow> J \<in> set xs \<Longrightarrow> K \<in> set xs \<Longrightarrow> handle J = handle K \<Longrightarrow> J = K"
  by (auto simp: distinct_map dest: inj_onD)

lemma getInst_distinct:
  assumes "distinct (map handle (concat F))" and "J \<in> set (concat F)"
  shows "getInst F (handle J) = Some J"
proof -
  obtain K where K: "getInst F (handle J) = Some K"
    using assms(2) by (cases "getInst F (handle J)") (auto simp: getInst_def find_None_iff)
  then have "K \<in> set (concat F)" and "handle K = handle J"
    unfolding getInst_def by (auto dest: find_SomeD)
  with handle_inj [OF assms(1) _ assms(2)] K show ?thesis by simp
qed

lemma users_mem:
  "u \<in> set (users F n) \<longleftrightarrow> (\<exists>J \<in> set (concat F). handle J = u \<and> Inst n \<in> set (operands J))"
  by (auto simp: users_def)

lemma Dinv_users: "Dinv F n opp D \<Longrightarrow> D \<subseteq> set (users F n)"
  unfolding Dinv_def by (rule subsetI) (simp only: users_mem, blast)

lemma Dinv_not_self:
  assumes "distinct (map handle (concat F))"
    and "BinaryOperator n opc p q \<in> set (concat F)" and "opc \<noteq> opp"
    and "Dinv F n opp D"
  shows "n \<notin> D"
proof
  assume "n \<in> D"
  with assms(4) obtain J where J: "J \<in> set (concat F)" "handle J = n" "opcode_is J opp"
    unfolding Dinv_def by blast
  from handle_inj [OF assms(1) J(1) assms(2)] J(2) have "J = BinaryOperator n opc p q"
    by simp
  with J(3) assms(3) show False by simp
qed

lemma subst_many_fixed:
  "(\<forall>m. x = Inst m \<longrightarrow> m \<notin> D) \<Longrightarrow> subst_many D v x = x"
  by (cases x) (simp_all add: subst_many_def)

lemma classified_user_fixed:
  assumes "getConstantFromInstruction (BinaryOperator u opp a d) = Some (C2, P2)"
    and "Inst n \<in> {a, d}" and "n \<notin> D"
  shows "subst_many_inst D v (BinaryOperator u opp a d) = BinaryOperator u opp a d"
proof -
  from classified_operands [OF assms(1)] assms(2)
  have "{a, d} = {ConstantInt (fst C2) (snd C2), Inst n}"
    by (cases a; cases d) auto
  then have "\<forall>x \<in> {a, d}. \<forall>m. x = Inst m \<longrightarrow> m \<notin> D"
    using assms(3) by auto
  then show ?thesis
    by (simp add: subst_many_fixed)
qed

lemma classified_width:
  assumes typed: "users_typed F n Param w"
    and J: "BinaryOperator u uop a d \<in> set (concat F)" "Inst n \<in> {a, d}"
    and cls: "getConstantFromInstruction
                (BinaryOperator u uop (subst_many D Param a) (subst_many D Param d))
               = Some ((w', c'), P')"
  shows "w' = w"
proof -
  from cls have "ConstantInt w' c' \<in> {subst_many D Param a, subst_many D Param d}"
    using classified_operands [of u uop "subst_many D Param a" "subst_many D Param d" "(w', c')" P']
    by auto
  then have "\<exists>x \<in> {a, d}. subst_many D Param x = ConstantInt w' c'"
    by auto
  then obtain x where x: "x \<in> {a, d}" "subst_many D Param x = ConstantInt w' c'"
    by blast
  show ?thesis
  proof (cases "x = ConstantInt w' c'")
    case True
    with x(1) J users_typedD(2) [OF typed, of "BinaryOperator u uop a d" w' c'] show ?thesis
      by auto
  next
    case False
    with x(2) have "Param = ConstantInt w' c'"
      by (cases x) (auto simp: subst_many_def split: if_splits)
    with users_typedD(1) [OF typed] show ?thesis by simp
  qed
qed

lemma cancel_user_step:
  assumes wf: "distinct (map handle (concat F))"
    and I: "BinaryOperator n opc p q \<in> set (concat F)" and opp: "opc \<noteq> opp"
    and typed: "users_typed F n Param w"
    and acyclic: "\<forall>J \<in> set (concat F). opcode_is J opp \<and> Inst n \<in> set (operands J)
        \<longrightarrow> Param \<noteq> Inst (handle J)"
    and D: "Dinv F n opp D"
    and u: "u \<in> set (users F n)"
  shows "\<exists>D'. cancel_user (w, c) Param opp u (redirect_many D Param F)
              = Some (redirect_many D' Param F)
           \<and> D \<subseteq> D' \<and> Dinv F n opp D'
           \<and> (\<forall>a d P2. BinaryOperator u opp a d \<in> set (concat F)
                \<and> getConstantFromInstruction (BinaryOperator u opp a d) = Some ((w, c), P2)
                \<longrightarrow> u \<in> D')"
proof -
  let ?G = "redirect_many D Param F"
  from u obtain J where J: "J \<in> set (concat F)" "handle J = u" "Inst n \<in> set (operands J)"
    unfolding users_mem by blast
  have get: "getInst ?G u = Some (subst_many_inst D Param J)"
    using getInst_distinct [OF wf J(1)] J(2) by (simp add: getInst_redirect_many)
  have only: "K = J" if "K \<in> set (concat F)" "handle K = u" for K
    using handle_inj [OF wf that(1) J(1)] that(2) J(2) by simp
  have nD: "n \<notin> D" using Dinv_not_self [OF wf I opp D] .
  have Pu: "Param \<noteq> Inst u" if "opcode_is J opp"
    using acyclic [rule_format, OF J(1)] that J(2,3) by simp
  have keep: "\<exists>D'. Some ?G = Some (redirect_many D' Param F) \<and> D \<subseteq> D' \<and> Dinv F n opp D'
      \<and> (\<forall>a d P2. BinaryOperator u opp a d \<in> set (concat F)
            \<and> getConstantFromInstruction (BinaryOperator u opp a d) = Some ((w, c), P2)
            \<longrightarrow> u \<in> D')"
    if "\<And>a d P2. BinaryOperator u opp a d \<in> set (concat F) \<Longrightarrow>
          getConstantFromInstruction (BinaryOperator u opp a d) = Some ((w, c), P2) \<Longrightarrow> False"
    using D that by blast
  show ?thesis
  proof (cases J)
    case (OtherInst m k ops)
    then have "cancel_user (w, c) Param opp u ?G = Some ?G"
      by (simp add: cancel_user_def get)
    moreover have False if "BinaryOperator u opp a d \<in> set (concat F)" for a d
      using only [OF that] OtherInst by simp
    ultimately show ?thesis using keep by metis
  next
    case (BinaryOperator m uop a d)
    with J(2) have m: "m = u" by simp
    note Jeq = BinaryOperator [unfolded m]
    from J(3) Jeq have nad: "Inst n \<in> {a, d}" by simp
    show ?thesis
    proof (cases "uop = opp")
      case False
      then have "cancel_user (w, c) Param opp u ?G = Some ?G"
        by (simp add: cancel_user_def get Jeq)
      moreover have False if "BinaryOperator u opp a' d' \<in> set (concat F)" for a' d'
        using only [OF that] Jeq False by simp
      ultimately show ?thesis using keep by metis
    next
      case True
      let ?J' = "BinaryOperator u opp (subst_many D Param a) (subst_many D Param d)"
      have get': "getInst ?G u = Some ?J'"
        using get Jeq True by simp
      have unique: "a' = a \<and> d' = d" if "BinaryOperator u opp a' d' \<in> set (concat F)" for a' d'
        using only [OF that] Jeq by simp
      have fixed: "?J' = BinaryOperator u opp a d"
        if "getConstantFromInstruction (BinaryOperator u opp a d) = Some (C2, P2)" for C2 P2
        using classified_user_fixed [OF that nad nD, of Param] by simp
      show ?thesis
      proof (cases "getConstantFromInstruction ?J'")
        case None
        then have "cancel_user (w, c) Param opp u ?G = Some ?G"
          by (simp add: cancel_user_def get')
        moreover have False
          if "BinaryOperator u opp a' d' \<in> set (concat F)"
            "getConstantFromInstruction (BinaryOperator u opp a' d') = Some ((w, c), P2)"
          for a' d' P2
          using unique [OF that(1)] that(2) fixed None by simp
        ultimately show ?thesis using keep by metis
      next
        case (Some r)
        obtain w' c' P' where r: "r = ((w', c'), P')" by (metis surj_pair)
        from Some r J(1) Jeq True have w': "w' = w"
          using classified_width [OF typed _ nad, of u opp D w' c' P'] by simp
        show ?thesis
        proof (cases "c = c'")
          case False
          then have "cancel_user (w, c) Param opp u ?G = Some ?G"
            using Some r w' by (simp add: cancel_user_def get')
          moreover have False
            if "BinaryOperator u opp a' d' \<in> set (concat F)"
              "getConstantFromInstruction (BinaryOperator u opp a' d') = Some ((w, c), P2)"
            for a' d' P2
            using unique [OF that(1)] that(2) fixed Some r False by simp
          ultimately show ?thesis using keep by metis
        next
          case eq: True
          have "Param \<noteq> Inst u"
            using Jeq True by (intro Pu) simp
          then have "cancel_user (w, c) Param opp u ?G = Some (redirect_many (insert u D) Param F)"
            using Some r w' eq
            by (simp add: cancel_user_def get' rauw_redirect_many)
          moreover have "Dinv F n opp (insert u D)"
            unfolding Dinv_def
          proof (intro ballI)
            fix m assume "m \<in> insert u D"
            then consider "m = u" | "m \<in> D" by blast
            then show "\<exists>J \<in> set (concat F). handle J = m \<and> opcode_is J opp
                \<and> Inst n \<in> set (operands J)"
            proof cases
              case 1
              have "opcode_is J opp" using Jeq True by simp
              with J 1 show ?thesis by blast
            next
              case 2
              with D show ?thesis unfolding Dinv_def by blast
            qed
          qed
          ultimately show ?thesis by blast
        qed
      qed
    qed
  qed
qed

lemma cancel_users_inv:
  assumes wf: "distinct (map handle (concat F))"
    and I: "BinaryOperator n opc p q \<in> set (concat F)" and opp: "opc \<noteq> opp"
    and typed: "users_typed F n Param w"
    and acyclic: "\<forall>J \<in> set (concat F). opcode_is J opp \<and> Inst n \<in> set (operands J)
        \<longrightarrow> Param \<noteq> Inst (handle J)"
  shows "Dinv F n opp D \<Longrightarrow> set us \<subseteq> set (users F n) \<Longrightarrow>
    \<exists>D'. cancel_users (w, c) Param opp us (redirect_many D Param F)
            = Some (redirect_many D' Param F)
       \<and> D \<subseteq> D' \<and> Dinv F n opp D'
       \<and> (\<forall>u \<in> set us. \<forall>a d P2. BinaryOperator u opp a d \<in> set (concat F)
             \<and> getConstantFromInstruction (BinaryOperator u opp a d) = Some ((w, c), P2)
             \<longrightarrow> u \<in> D')"
proof (induction us arbitrary: D)
  case Nil
  then show ?case by auto
next
  case (Cons u us)
  from Cons.prems have u: "u \<in> set (users F n)" and us: "set us \<subseteq> set (users F n)"
    by simp_all
  from cancel_user_step [OF wf I opp typed acyclic Cons.prems(1) u, of c]
  obtain D1 where step: "cancel_user (w, c) Param opp u (redirect_many D Param F)
        = Some (redirect_many D1 Param F)"
    and D1: "D \<subseteq> D1" "Dinv F n opp D1"
    and hit: "\<forall>a d P2. BinaryOperator u opp a d \<in> set (concat F)
        \<and> getConstantFromInstruction (BinaryOperator u opp a d) = Some ((w, c), P2)
        \<longrightarrow> u \<in> D1"
    by blast
  from Cons.IH [OF D1(2) us]
  obtain D2 where rest: "cancel_users (w, c) Param opp us (redirect_many D1 Param F)
        = Some (redirect_many D2 Param F)"
    and D2: "D1 \<subseteq> D2" "Dinv F n opp D2"
    and hits: "\<forall>u \<in> set us. \<forall>a d P2. BinaryOperator u opp a d \<in> set (concat F)
        \<and> getConstantFromInstruction (BinaryOperator u opp a d) = Some ((w, c), P2)
        \<longrightarrow> u \<in> D2"
    by blast
  have "cancel_users (w, c) Param opp (u # us) (redirect_many D Param F)
      = Some (redirect_many D2 Param F)"
    by (simp add: step rest)
  moreover have "D \<subseteq> D2" using D1(1) D2(1) by blast
  moreover have "\<forall>m \<in> set (u # us). \<forall>a d P2. BinaryOperator m opp a d \<in> set (concat F)
        \<and> getConstantFromInstruction (BinaryOperator m opp a d) = Some ((w, c), P2)
        \<longrightarrow> m \<in> D2"
    using hit hits D2(1) by auto
  ultimately show ?case using D2(2) by blast
qed

lemma Dinv_empty [simp]: "Dinv F n opp {}"
  by (simp add: Dinv_def)

lemma redirect_many_nth:
  "b < length F \<Longrightarrow> i < length (F ! b) \<Longrightarrow>
   redirect_many D v F ! b ! i = subst_many_inst D v (F ! b ! i)"
  by (simp add: redirect_many_def)

lemma redirect_many_handles: "map (map handle) (redirect_many D v F) = map (map handle) F"
  by (simp add: redirect_many_def comp_def)

lemma users_redirect_many:
  assumes "u \<in> D" and "v \<noteq> Inst u"
  shows "users (redirect_many D v F) u = []"
proof -
  have ne: "subst_many D v x \<noteq> Inst u" for x
    using assms by (cases x) (auto simp: subst_many_def)
  have "Inst u \<notin> set (operands (subst_many_inst D v J))" for J
  proof
    assume "Inst u \<in> set (operands (subst_many_inst D v J))"
    then obtain x where "subst_many D v x = Inst u"
      unfolding operands_subst_many by auto
    with ne show False by blast
  qed
  then show ?thesis
    by (simp add: users_Nil_iff concat_redirect_many)
qed

lemma subst_many_inst_fixed:
  "(\<forall>x \<in> set (operands J). \<forall>m. x = Inst m \<longrightarrow> m \<notin> D) \<Longrightarrow> subst_many_inst D v J = J"
  by (cases J) (auto simp: subst_many_fixed intro!: map_idI)

text \<open>
  The body of the loop at an Add or Sub \<open>n\<close> classified as (constant \<open>c\<close> of width \<open>w\<close>,
  \<open>Param\<close>), with a user \<open>U\<close> of the opposite opcode that classifies with the same
  constant. By \<open>cancel_users_inv\<close> the order in which the users are walked plays no part.
\<close>

lemma mio_inst_cancels:
  assumes b: "b < length F" and i: "i < length (F ! b)"
    and at: "F ! b ! i = BinaryOperator n opc p q" and opc: "opc = Add \<or> opc = Sub"
    and cls: "getConstantFromInstruction (BinaryOperator n opc p q) = Some ((w, c), Param)"
    and opp: "opp = (if opc = Add then Sub else Add)"
    and U: "BinaryOperator u opp a d \<in> set (concat F)" and use: "Inst n \<in> {a, d}"
    and clsU: "getConstantFromInstruction (BinaryOperator u opp a d) = Some ((w, c), Param2)"
    and wf: "distinct (map handle (concat F))"
    and typed: "users_typed F n Param w"
    and acyclic: "\<forall>m a' d'. BinaryOperator m opp a' d' \<in> set (concat F) \<and> Inst n \<in> {a', d'}
        \<longrightarrow> Param \<noteq> Inst m"
  shows "\<exists>F'. mio_inst F (F ! b ! i) = Some F'
      \<and> map (map handle) F' = map (map handle) F
      \<and> F' ! b ! i = F ! b ! i
      \<and> (\<forall>b' j. b' < length F \<and> j < length (F ! b') \<and> F ! b' ! j = BinaryOperator u opp a d
            \<longrightarrow> F' ! b' ! j = BinaryOperator u opp a d)
      \<and> users F' u = []
      \<and> (\<forall>b' j k. b' < length F \<and> j < length (F ! b') \<and> k < length (operands (F ! b' ! j))
            \<and> operands (F ! b' ! j) ! k = Inst u
            \<longrightarrow> operands (F' ! b' ! j) ! k = Param)"
proof -
  have I: "BinaryOperator n opc p q \<in> set (concat F)"
    using nth_mem_concat [OF b i] at by simp
  have ne: "opc \<noteq> opp" using opc opp by auto
  have step: "mio_inst F (F ! b ! i) = cancel_users (w, c) Param opp (users F n) F"
    using at opc cls opp by auto
  have acyclic': "\<forall>J \<in> set (concat F). opcode_is J opp \<and> Inst n \<in> set (operands J)
      \<longrightarrow> Param \<noteq> Inst (handle J)"
  proof (intro ballI impI)
    fix J assume J: "J \<in> set (concat F)" "opcode_is J opp \<and> Inst n \<in> set (operands J)"
    from J(2) obtain m a' d' where Jeq: "J = BinaryOperator m opp a' d'"
      by (cases J) auto
    with J have "BinaryOperator m opp a' d' \<in> set (concat F) \<and> Inst n \<in> {a', d'}"
      by simp
    from acyclic [rule_format, OF this] Jeq show "Param \<noteq> Inst (handle J)"
      by simp
  qed
  from cancel_users_inv [OF wf I ne typed acyclic' Dinv_empty subset_refl, of c]
  obtain D where res: "cancel_users (w, c) Param opp (users F n) F = Some (redirect_many D Param F)"
    and D: "Dinv F n opp D"
    and hits: "\<forall>m \<in> set (users F n). \<forall>a d P2. BinaryOperator m opp a d \<in> set (concat F)
        \<and> getConstantFromInstruction (BinaryOperator m opp a d) = Some ((w, c), P2)
        \<longrightarrow> m \<in> D"
    by auto
  let ?F' = "redirect_many D Param F"
  have u_user: "u \<in> set (users F n)"
    unfolding users_mem using U use by (intro bexI [of _ "BinaryOperator u opp a d"]) auto
  with hits U clsU have uD: "u \<in> D" by blast
  have nD: "n \<notin> D" using Dinv_not_self [OF wf I ne D] .
  have PD: "Param \<noteq> Inst m" if "m \<in> D" for m
  proof -
    from D that obtain J where "J \<in> set (concat F)" "handle J = m"
        "opcode_is J opp \<and> Inst n \<in> set (operands J)"
      unfolding Dinv_def by blast
    with acyclic' [rule_format, of J] show ?thesis by simp
  qed
  have "set (operands (BinaryOperator n opc p q)) = {ConstantInt w c, Param}"
    using classified_operands [OF cls] by simp
  then have "\<forall>x \<in> set (operands (F ! b ! i)). \<forall>m. x = Inst m \<longrightarrow> m \<notin> D"
    using PD at by auto
  then have I_fixed: "?F' ! b ! i = F ! b ! i"
    using b i by (simp add: redirect_many_nth subst_many_inst_fixed)
  have U_fixed: "?F' ! b' ! j = BinaryOperator u opp a d"
    if "b' < length F" "j < length (F ! b')" "F ! b' ! j = BinaryOperator u opp a d" for b' j
    using that classified_user_fixed [OF clsU use nD, of Param]
    by (simp add: redirect_many_nth)
  have slots: "operands (?F' ! b' ! j) ! k = Param"
    if "b' < length F" "j < length (F ! b')" "k < length (operands (F ! b' ! j))"
      "operands (F ! b' ! j) ! k = Inst u" for b' j k
    using that uD by (simp add: redirect_many_nth operands_subst_many subst_many_def)
  have "users ?F' u = []"
    using uD PD by (intro users_redirect_many) auto
  with step res I_fixed U_fixed slots redirect_many_handles [of D Param F] show ?thesis
    by (intro exI [of _ ?F']) auto
qed

subsection \<open>The loop of algebraicIdentity_stregthReduction\<close>

lemma asr_reaches_length: "asr_reaches F b G i \<Longrightarrow> length G = length F"
  by (induction rule: asr_reaches.induct) (simp_all add: asr_inst_length)

lemma asr_loop_step:
  "b < length G \<Longrightarrow> i < length (G ! b) \<Longrightarrow> asr_inst G b i (G ! b ! i) = Some G' \<Longrightarrow>
   asr_loop G b i = asr_loop G' b (Suc i)"
  by (subst asr_loop.simps) simp

lemma asr_reaches_result: "asr_reaches F b G i \<Longrightarrow> asr_loop G b i = asr_loop F b 0"
  by (induction rule: asr_reaches.induct) (simp_all add: asr_loop_step)

lemma rauw_SomeD:
  "replaceAllUsesWith n v F = Some F' \<Longrightarrow> v \<noteq> Inst n \<and> F' = redirect n v F"
  by (auto simp: replaceAllUsesWith_def redirect_def split: if_splits)

lemma operands_subst_inst: "operands (subst_inst m v I) = map (subst_val m v) (operands I)"
  by (cases I) simp_all

lemma concat_redirect: "concat (redirect m v F) = map (subst_inst m v) (concat F)"
  by (simp add: redirect_def map_concat)

lemma users_Nil_redirect:
  assumes "users F x = []" and "v \<noteq> Inst x"
  shows "users (redirect m v F) x = []"
proof -
  have "Inst x \<notin> set (operands (subst_inst m v I))" if "I \<in> set (concat F)" for I
  proof
    assume "Inst x \<in> set (operands (subst_inst m v I))"
    then obtain y where y: "y \<in> set (operands I)" "subst_val m v y = Inst x"
      unfolding operands_subst_inst by auto
    from assms(1) that y(1) have "y \<noteq> Inst x"
      unfolding users_Nil_iff by blast
    with y(2) assms(2) show False
      by (simp add: subst_val_def split: if_splits)
  qed
  then show ?thesis
    by (simp add: users_Nil_iff concat_redirect)
qed

lemma users_Nil_rewrite:
  assumes "b < length G" and "users G x = []" and "v \<noteq> Inst x"
    and "\<forall>J \<in> set news. Inst x \<notin> set (operands J)"
  shows "users (redirect m v (splice G b i news)) x = []"
proof -
  have "users (splice G b i news) x = []"
    using assms(2,4) unfolding users_Nil_iff set_concat_splice [OF assms(1)] by blast
  then show ?thesis using assms(3) by (rule users_Nil_redirect)
qed

lemma handles_rewrite:
  assumes "b < length G"
  shows "handle ` set (concat (redirect m v (splice G b i news)))
       = handle ` set (concat G) \<union> handle ` set news"
  by (simp only: concat_redirect set_map image_image handle_subst_inst
      set_concat_splice [OF assms] image_Un)


lemma asr_inst_shape:
  assumes step: "asr_inst G b i (G ! b ! i) = Some G'"
    and b: "b < length G" and i: "i < length (G ! b)"
  shows "G' = G \<or>
    (\<exists>news v. G' = redirect (handle (G ! b ! i)) v (splice G b i news)
       \<and> (v \<in> set (operands (G ! b ! i)) \<or> v = Inst (fresh G) \<or> v = Inst (Suc (fresh G)))
       \<and> (\<forall>J \<in> set news. (handle J = fresh G \<or> handle J = Suc (fresh G))
            \<and> (\<forall>m. Inst m \<in> set (operands J) \<longrightarrow>
                  Inst m \<in> set (operands (G ! b ! i)) \<or> m = fresh G)))"
proof -
  let ?s = "fresh G"
  let ?I = "G ! b ! i"
  let ?P = "\<lambda>G'. G' = G \<or>
    (\<exists>news v. G' = redirect (handle ?I) v (splice G b i news)
       \<and> (v \<in> set (operands ?I) \<or> v = Inst ?s \<or> v = Inst (Suc ?s))
       \<and> (\<forall>J \<in> set news. (handle J = ?s \<or> handle J = Suc ?s)
            \<and> (\<forall>m. Inst m \<in> set (operands J) \<longrightarrow> Inst m \<in> set (operands ?I) \<or> m = ?s)))"
  have direct: "?P G'"
    if "replaceAllUsesWith (handle ?I) v G = Some G'" "v \<in> set (operands ?I)" for v
  proof -
    from rauw_SomeD [OF that(1)] have "G' = redirect (handle ?I) v (splice G b i [])"
      by (simp add: splice_Nil)
    with that(2) show ?thesis by (intro disjI2 exI [of _ "[]"] exI [of _ v]) simp
  qed
  have one: "?P G'"
    if "replaceAllUsesWith (handle ?I) (Inst ?s) (insertAfter b i (BinaryOperator ?s opc x k) G)
          = Some G'"
      "x \<in> set (operands ?I)" "\<forall>m. k \<noteq> Inst m" for opc x k
  proof -
    from rauw_SomeD [OF that(1)]
    have "G' = redirect (handle ?I) (Inst ?s) (splice G b i [BinaryOperator ?s opc x k])"
      by (simp add: insertAfter_splice)
    with that(2,3) show ?thesis
      by (intro disjI2 exI [of _ "[BinaryOperator ?s opc x k]"] exI [of _ "Inst ?s"]) auto
  qed
  have two: "?P G'"
    if "replaceAllUsesWith (handle ?I) (Inst (fresh (insertAfter b i (BinaryOperator ?s opc x k) G)))
          (insertAfter b (Suc i)
             (BinaryOperator (fresh (insertAfter b i (BinaryOperator ?s opc x k) G)) opc2 (Inst ?s) x)
             (insertAfter b i (BinaryOperator ?s opc x k) G))
          = Some G'"
      "x \<in> set (operands ?I)" "\<forall>m. k \<noteq> Inst m" for opc opc2 x k
  proof -
    have f: "fresh (insertAfter b i (BinaryOperator ?s opc x k) G) = Suc ?s"
      using b by (simp add: insertAfter_splice fresh_splice_one)
    from rauw_SomeD [OF that(1)]
    have "G' = redirect (handle ?I) (Inst (Suc ?s))
        (splice G b i [BinaryOperator ?s opc x k, BinaryOperator (Suc ?s) opc2 (Inst ?s) x])"
      using b i by (simp add: f insertAfter_twice)
    with that(2,3) show ?thesis
      by (intro disjI2 exI [of _ "[BinaryOperator ?s opc x k, BinaryOperator (Suc ?s) opc2 (Inst ?s) x]"]
          exI [of _ "Inst (Suc ?s)"]) auto
  qed
  have const: "\<forall>m. ConstantInt_get w j \<noteq> Inst m" for w j
    by (simp add: ConstantInt_get_def)
  show ?thesis
  proof (cases ?I)
    case (OtherInst n opc ops)
    with step show ?thesis by simp
  next
    case (BinaryOperator n opc x y)
    then have h: "handle ?I = n" and ops: "set (operands ?I) = {x, y}" by simp_all
    consider (add) "opc = Add" | (mul) "opc = Mul" | (sdiv) "opc = SDiv"
      | (other) "opc \<noteq> Add" "opc \<noteq> Mul" "opc \<noteq> SDiv" by blast
    then show ?thesis
    proof cases
      case add
      show ?thesis
      proof (cases "getConstantFromInstruction (BinaryOperator n Add x y)")
        case None
        with step BinaryOperator add show ?thesis by simp
      next
        case (Some r)
        obtain C Param where r: "r = (C, Param)" by (cases r)
        from classified_operands [OF Some [unfolded r]] have P: "Param \<in> set (operands ?I)"
          using BinaryOperator by auto
        from step BinaryOperator add Some r
        have "G' = G \<or> replaceAllUsesWith (handle ?I) Param G = Some G'"
          by (auto split: if_splits)
        with direct [OF _ P] show ?thesis by blast
      qed
    next
      case mul
      show ?thesis
      proof (cases "getConstantFromInstruction (BinaryOperator n Mul x y)")
        case None
        with step BinaryOperator mul show ?thesis by simp
      next
        case (Some r)
        obtain C Param where r: "r = (C, Param)" by (cases r)
        from classified_operands [OF Some [unfolded r]] have P: "Param \<in> set (operands ?I)"
          using BinaryOperator by auto
        from step BinaryOperator mul Some r have m: "asr_mul G b i (handle ?I) C Param = Some G'"
          by simp
        show ?thesis
          using m direct [OF _ P] one [OF _ P const] two [OF _ P const]
          unfolding asr_mul_def Let_def by (auto split: if_splits)
      qed
    next
      case sdiv
      show ?thesis
      proof (cases y)
        case (ConstantInt w v)
        have P: "x \<in> set (operands ?I)" using ops by simp
        from step BinaryOperator sdiv ConstantInt
        have m: "asr_sdiv G b i (handle ?I) (w, v) x = Some G'"
          by simp
        show ?thesis
          using m direct [OF _ P] one [OF _ P const]
          unfolding asr_sdiv_def Let_def by (auto split: if_splits)
      qed (use step BinaryOperator sdiv in simp_all)
    next
      case other
      with step BinaryOperator show ?thesis by (cases opc) simp_all
    qed
  qed
qed


lemma asr_inst_cases:
  assumes "asr_inst G b i (G ! b ! i) = Some G'" and "b < length G" and "i < length (G ! b)"
  obtains (same) "G' = G"
  | (rewrite) news v where "G' = redirect (handle (G ! b ! i)) v (splice G b i news)"
      "v \<in> set (operands (G ! b ! i)) \<or> v = Inst (fresh G) \<or> v = Inst (Suc (fresh G))"
      "\<forall>J \<in> set news. (handle J = fresh G \<or> handle J = Suc (fresh G))
            \<and> (\<forall>m. Inst m \<in> set (operands J) \<longrightarrow>
                  Inst m \<in> set (operands (G ! b ! i)) \<or> m = fresh G)"
  using asr_inst_shape [OF assms] by blast

lemma asr_inst_unused:
  assumes step: "asr_inst G b i (G ! b ! i) = Some G'"
    and b: "b < length G" and i: "i < length (G ! b)"
    and unused: "users G x = []" and x: "x \<in> handle ` set (concat G)"
  shows "users G' x = [] \<and> x \<in> handle ` set (concat G')"
proof -
  from x have lt: "x < fresh G" using fresh_gt by auto
  have I: "G ! b ! i \<in> set (concat G)" using b i by (rule nth_mem_concat)
  with unused have self: "Inst x \<notin> set (operands (G ! b ! i))"
    unfolding users_Nil_iff by blast
  from step b i show ?thesis
  proof (cases rule: asr_inst_cases)
    case same
    with unused x show ?thesis by simp
  next
    case (rewrite news v)
    from rewrite(2) self lt have v': "v \<noteq> Inst x" by auto
    from rewrite(3) self lt have news': "\<forall>J \<in> set news. Inst x \<notin> set (operands J)" by blast
    have "users G' x = []"
      unfolding rewrite(1) using b unused v' news' by (rule users_Nil_rewrite)
    moreover have "x \<in> handle ` set (concat G')"
      unfolding rewrite(1) handles_rewrite [OF b] using x by blast
    ultimately show ?thesis ..
  qed
qed

lemma asr_loop_unused:
  "asr_loop G b i = Some R \<Longrightarrow> users G x = [] \<Longrightarrow> x \<in> handle ` set (concat G) \<Longrightarrow>
   users R x = []"
proof (induction G b i rule: asr_loop.induct)
  case (1 F b i)
  show ?case
  proof (cases "b < length F \<and> i < length (F ! b)")
    case True
    with "1.prems"(1) obtain F1 where step: "asr_inst F b i (F ! b ! i) = Some F1"
      and rest: "asr_loop F1 b (Suc i) = Some R"
      by (subst (asm) asr_loop.simps) (auto split: option.splits)
    from asr_inst_unused [OF step _ _ "1.prems"(2,3)] True
    have "users F1 x = []" "x \<in> handle ` set (concat F1)" by simp_all
    with "1.IH" [OF True step rest] show ?thesis by simp
  next
    case False
    with "1.prems" show ?thesis
      by (subst (asm) asr_loop.simps) auto
  qed
qed

lemma asr_inst_prefix:
  assumes step: "asr_inst G b i (G ! b ! i) = Some G'"
    and b: "b < length G" and i: "i < length (G ! b)"
  shows "map handle (take (Suc i) (G' ! b)) = map handle (take (Suc i) (G ! b))"
  using step b i
proof (cases rule: asr_inst_cases)
  case same
  then show ?thesis by simp
next
  case (rewrite news v)
  have "G' ! b = map (subst_inst (handle (G ! b ! i)) v)
      (take (Suc i) (G ! b) @ news @ drop (Suc i) (G ! b))"
    unfolding rewrite(1) using b by (simp add: redirect_def splice_nth)
  then show ?thesis using i by (simp add: take_map comp_def)
qed

lemma asr_loop_prefix:
  "asr_loop G b j = Some R \<Longrightarrow>
   map handle (take (Suc j) (R ! b)) = map handle (take (Suc j) (G ! b))"
proof (induction G b j rule: asr_loop.induct)
  case (1 F b i)
  show ?case
  proof (cases "b < length F \<and> i < length (F ! b)")
    case True
    with "1.prems"(1) obtain F1 where step: "asr_inst F b i (F ! b ! i) = Some F1"
      and rest: "asr_loop F1 b (Suc i) = Some R"
      by (subst (asm) asr_loop.simps) (auto split: option.splits)
    from "1.IH" [OF True step rest]
    have "take (Suc i) (map handle (take (Suc (Suc i)) (R ! b)))
        = take (Suc i) (map handle (take (Suc (Suc i)) (F1 ! b)))"
      by simp
    then have "map handle (take (Suc i) (R ! b)) = map handle (take (Suc i) (F1 ! b))"
      by (simp add: take_map min_def)
    also have "\<dots> = map handle (take (Suc i) (F ! b))"
      using asr_inst_prefix [OF step] True by simp
    finally show ?thesis .
  next
    case False
    with "1.prems" show ?thesis
      by (subst (asm) asr_loop.simps) auto
  qed
qed

lemma asr_loop_prefix_le:
  assumes "asr_loop G b j = Some R" and "k \<le> Suc j"
  shows "map handle (take k (R ! b)) = map handle (take k (G ! b))"
proof -
  from asr_loop_prefix [OF assms(1)]
  have "take k (map handle (take (Suc j) (R ! b))) = take k (map handle (take (Suc j) (G ! b)))"
    by simp
  with assms(2) show ?thesis
    by (simp add: take_map min_def)
qed

lemma asr_skip_shl:
  "b < length G \<Longrightarrow> j < length (G ! b) \<Longrightarrow> G ! b ! j = BinaryOperator s Shl a c \<Longrightarrow>
   asr_loop G b j = asr_loop G b (Suc j)"
  by (subst asr_loop.simps) simp

lemma rewrite_nth:
  assumes "b < length G"
  shows "redirect n v (splice G b i news) ! b
       = map (subst_inst n v) (take (Suc i) (G ! b) @ news @ drop (Suc i) (G ! b))"
  using assms by (simp add: redirect_def splice_nth)

lemma rewrite_handles_prefix:
  assumes b: "b < length G" and i: "i < length (G ! b)"
  shows "map handle (take (Suc i + length news) (redirect n v (splice G b i news) ! b))
       = map handle (take i (G ! b)) @ handle (G ! b ! i) # map handle news"
proof -
  have "take (Suc i + length news) (take (Suc i) (G ! b) @ news @ drop (Suc i) (G ! b))
      = take (Suc i) (G ! b) @ news"
    using i by simp
  then have "map handle (take (Suc i + length news) (redirect n v (splice G b i news) ! b))
      = map handle (take (Suc i) (G ! b) @ news)"
    unfolding rewrite_nth [OF b] by (simp only: take_map map_map comp_def handle_subst_inst)
  then show ?thesis
    using i by (simp add: take_Suc_conv_app_nth)
qed


lemma asr_rewritesI:
  assumes b: "b < length F" and reach: "asr_reaches F b G i" and i: "i < length (G ! b)"
    and pass: "algebraicIdentity_stregthReduction F b
        = (case asr_loop G b i of None \<Rightarrow> None | Some R \<Rightarrow> Some (True, R))"
    and n: "handle (G ! b ! i) = n"
    and ex: "\<exists>G'. asr_inst G b i (G ! b ! i) = Some G' \<and> takes_all_uses G b i n news v G'"
    and short: "length news \<le> 1 \<or> (\<exists>s a c J. news = [BinaryOperator s Shl a c, J])"
  shows "asr_rewrites F b G i n news v"
proof -
  from ex obtain G' where step: "asr_inst G b i (G ! b ! i) = Some G'"
    and takes: "takes_all_uses G b i n news v G'" by blast
  have bG: "b < length G"
    using asr_reaches_length [OF reach] b by simp
  have reach': "asr_reaches F b G' (Suc i)"
    using reach bG i step by (rule asr_reaches.step)
  have bG': "b < length G'"
    using asr_reaches_length [OF reach'] b by simp
  from takes have G': "G' = redirect n v (splice G b i news)" and unused: "users G' n = []"
    and same: "G' ! b ! i = G ! b ! i"
    and news: "take (length news) (drop (Suc i) (G' ! b)) = news"
    unfolding takes_all_uses_def by blast+
  have len: "length (G' ! b) = length (G ! b) + length news"
    unfolding G' rewrite_nth [OF bG] by simp
  have "G' ! b ! i \<in> set (concat G')"
    using bG' i len by (intro nth_mem_concat) simp_all
  then have nh: "n \<in> handle ` set (concat G')"
    using same n by force
  have pre: "map handle (take (Suc i + length news) (G' ! b))
      = map handle (take i (G ! b)) @ n # map handle news"
    unfolding G' using rewrite_handles_prefix [OF bG i, of news n v] n by simp
  have skip: "\<exists>j. asr_loop G' b (Suc i) = asr_loop G' b j \<and> Suc i + length news \<le> Suc j"
  proof (cases "length news \<le> 1")
    case True
    then show ?thesis by (intro exI [of _ "Suc i"]) simp
  next
    case False
    with short obtain s a c J where eq: "news = [BinaryOperator s Shl a c, J]" by blast
    have lt: "Suc i < length (G' ! b)" using len eq i by simp
    have "take (length news) (drop (Suc i) (G' ! b)) ! 0 = news ! 0"
      by (simp only: news)
    then have "G' ! b ! Suc i = BinaryOperator s Shl a c"
      using lt eq by simp
    from asr_skip_shl [OF bG' lt this] eq show ?thesis
      by (intro exI [of _ "Suc (Suc i)"]) simp
  qed
  have res: "users R n = [] \<and> map handle (take (Suc i + length news) (R ! b))
      = map handle (take i (G ! b)) @ n # map handle news"
    if R: "asr_loop G' b (Suc i) = Some R" for R
  proof -
    from skip obtain j where j: "asr_loop G' b (Suc i) = asr_loop G' b j"
      "Suc i + length news \<le> Suc j" by blast
    from R j(1) have "asr_loop G' b j = Some R" by simp
    from asr_loop_prefix_le [OF this j(2)] pre asr_loop_unused [OF R unused nh]
    show ?thesis by simp
  qed
  have pass': "algebraicIdentity_stregthReduction F b
      = (case asr_loop G' b (Suc i) of None \<Rightarrow> None | Some R \<Rightarrow> Some (True, R))"
    using pass asr_loop_step [OF bG i step] by simp
  show ?thesis
    unfolding asr_rewrites_def pass'
    using step takes reach' res by (simp split: option.splits)
qed

lemma asr_keepsI:
  assumes b: "b < length F" and reach: "asr_reaches F b G i" and i: "i < length (G ! b)"
    and pass: "algebraicIdentity_stregthReduction F b
        = (case asr_loop G b i of None \<Rightarrow> None | Some R \<Rightarrow> Some (True, R))"
    and step: "asr_inst G b i (G ! b ! i) = Some G"
  shows "asr_keeps F b G i"
proof -
  have bG: "b < length G"
    using asr_reaches_length [OF reach] b by simp
  have reach': "asr_reaches F b G (Suc i)"
    using reach bG i step by (rule asr_reaches.step)
  show ?thesis
    unfolding asr_keeps_def using step reach' pass asr_loop_step [OF bG i step] by simp
qed


text \<open>
  The loop visits every instruction of the block that the pass returns: the
  instructions of the block handed to the pass and the inserted ones.
\<close>

lemma asr_loop_visits:
  "asr_loop G b i = Some R \<Longrightarrow> asr_reaches F b G i \<Longrightarrow> b < length F \<Longrightarrow>
   i \<le> j \<Longrightarrow> j < length (R ! b) \<Longrightarrow>
   \<exists>G'. asr_reaches F b G' j \<and> j < length (G' ! b) \<and> handle (G' ! b ! j) = handle (R ! b ! j)"
proof (induction G b i rule: asr_loop.induct)
  case (1 G b i)
  have bG: "b < length G"
    using asr_reaches_length [OF "1.prems"(2)] "1.prems"(3) by simp
  show ?case
  proof (cases "i < length (G ! b)")
    case True
    with bG "1.prems"(1) obtain G1 where step: "asr_inst G b i (G ! b ! i) = Some G1"
      and rest: "asr_loop G1 b (Suc i) = Some R"
      by (subst (asm) asr_loop.simps) (auto split: option.splits)
    have reach1: "asr_reaches F b G1 (Suc i)"
      using "1.prems"(2) bG True step by (rule asr_reaches.step)
    show ?thesis
    proof (cases "j = i")
      case True
      have "map handle (take (Suc i) (R ! b)) ! i = map handle (take (Suc i) (G ! b)) ! i"
        by (simp only: asr_loop_prefix [OF "1.prems"(1)])
      then have "handle (G ! b ! i) = handle (R ! b ! i)"
        using \<open>i < length (G ! b)\<close> "1.prems"(5) True by simp
      with "1.prems"(2) \<open>i < length (G ! b)\<close> True show ?thesis
        by blast
    next
      case False
      with "1.prems"(4) have "Suc i \<le> j" by simp
      from "1.IH" [OF _ step rest reach1 "1.prems"(3) this "1.prems"(5)] bG True
      show ?thesis by simp
    qed
  next
    case False
    with "1.prems"(1) have "R = G"
      by (subst (asm) asr_loop.simps) simp
    with False "1.prems"(4,5) show ?thesis by simp
  qed
qed

lemma asr_visits_all:
  assumes "b < length F" and "algebraicIdentity_stregthReduction F b = Some (t, R)"
    and "j < length (R ! b)"
  shows "\<exists>G. asr_reaches F b G j \<and> j < length (G ! b) \<and> handle (G ! b ! j) = handle (R ! b ! j)"
proof -
  from assms(2) have "asr_loop F b 0 = Some R"
    by (auto simp: algebraicIdentity_stregthReduction_def split: option.splits)
  from asr_loop_visits [OF this asr_reaches.start assms(1) _ assms(3)] show ?thesis
    by simp
qed

text \<open>
  C8. The loop of \<open>algebraicIdentity_stregthReduction\<close> over block \<open>b\<close> of \<open>F\<close> comes to an
  Add \<open>n\<close>. Its operands are the ones it has at that moment: the rewrites of the
  instructions before it may have put a constant where \<open>F\<close> had the result of an
  instruction. If exactly one operand is a constant, this constant is 0 and the other
  operand is \<open>x\<close> (not the Add itself), all uses of the Add are replaced with \<open>x\<close>, nothing
  is inserted, and in the function that the pass returns the Add has no use. If the one
  constant is not 0, or if no operand is a constant, the Add is not rewritten. An Add of
  two constants is classified by operand 0: if that is 0 the uses go to operand 1,
  otherwise the Add is not rewritten.
\<close>

theorem add_zero_in_pass:
  assumes b: "b < length F" and reach: "asr_reaches F b G i" and i: "i < length (G ! b)"
    and at: "G ! b ! i = BinaryOperator n Add p q"
  shows
    "(((p = ConstantInt w 0 \<and> q = x) \<or> (p = x \<and> q = ConstantInt w 0))
        \<and> (\<forall>w' c'. x \<noteq> ConstantInt w' c') \<and> x \<noteq> Inst n \<longrightarrow>
        asr_rewrites F b G i n [] x)
     \<and> (((p = ConstantInt w c \<and> q = x) \<or> (p = x \<and> q = ConstantInt w c))
        \<and> (\<forall>w' c'. x \<noteq> ConstantInt w' c') \<and> c \<noteq> 0 \<longrightarrow>
        asr_keeps F b G i)
     \<and> ((\<forall>w' c'. p \<noteq> ConstantInt w' c') \<and> (\<forall>w' c'. q \<noteq> ConstantInt w' c') \<longrightarrow>
        asr_keeps F b G i)
     \<and> (p = ConstantInt w 0 \<and> q = ConstantInt w' c' \<longrightarrow>
        asr_rewrites F b G i n [] (ConstantInt w' c'))
     \<and> (p = ConstantInt w c \<and> c \<noteq> 0 \<and> q = ConstantInt w' c' \<longrightarrow>
        asr_keeps F b G i)"
proof -
  have bG: "b < length G"
    using asr_reaches_length [OF reach] b by simp
  have n: "handle (G ! b ! i) = n"
    using at by simp
  have pass: "algebraicIdentity_stregthReduction F b
      = (case asr_loop G b i of None \<Rightarrow> None | Some R \<Rightarrow> Some (True, R))"
    by (simp add: algebraicIdentity_stregthReduction_def asr_reaches_result [OF reach])
  note body = asr_inst_add [OF bG i at]
  have rw: "asr_rewrites F b G i n [] y"
    if "getConstantFromInstruction (BinaryOperator n Add p q) = Some ((w, 0), y)" "y \<noteq> Inst n"
    for y
    using body [of w y] that by (intro asr_rewritesI [OF b reach i pass n]) simp_all
  have kp: "asr_keeps F b G i"
    if "getConstantFromInstruction (BinaryOperator n Add p q) = Some ((w, c), y)" "c \<noteq> 0" for y
    using body [of w y c] that by (intro asr_keepsI [OF b reach i pass]) simp
  have kp': "asr_keeps F b G i"
    if "getConstantFromInstruction (BinaryOperator n Add p q) = None"
    using body [of w x c] that by (intro asr_keepsI [OF b reach i pass]) simp
  show ?thesis
  proof (intro conjI impI)
    assume h: "((p = ConstantInt w 0 \<and> q = x) \<or> (p = x \<and> q = ConstantInt w 0))
        \<and> (\<forall>w' c'. x \<noteq> ConstantInt w' c') \<and> x \<noteq> Inst n"
    then have "getConstantFromInstruction (BinaryOperator n Add p q) = Some ((w, 0), x)"
      by (cases x) auto
    with h show "asr_rewrites F b G i n [] x"
      by (intro rw) simp_all
  next
    assume h: "((p = ConstantInt w c \<and> q = x) \<or> (p = x \<and> q = ConstantInt w c))
        \<and> (\<forall>w' c'. x \<noteq> ConstantInt w' c') \<and> c \<noteq> 0"
    then have "getConstantFromInstruction (BinaryOperator n Add p q) = Some ((w, c), x)"
      by (cases x) auto
    with h show "asr_keeps F b G i"
      by (intro kp) simp_all
  next
    assume "(\<forall>w' c'. p \<noteq> ConstantInt w' c') \<and> (\<forall>w' c'. q \<noteq> ConstantInt w' c')"
    then have "getConstantFromInstruction (BinaryOperator n Add p q) = None"
      by (cases p; cases q) auto
    then show "asr_keeps F b G i"
      by (rule kp')
  next
    assume h: "p = ConstantInt w 0 \<and> q = ConstantInt w' c'"
    then have "getConstantFromInstruction (BinaryOperator n Add p q)
        = Some ((w, 0), ConstantInt w' c')"
      by simp
    then show "asr_rewrites F b G i n [] (ConstantInt w' c')"
      by (intro rw) simp_all
  next
    assume h: "p = ConstantInt w c \<and> c \<noteq> 0 \<and> q = ConstantInt w' c'"
    then have "getConstantFromInstruction (BinaryOperator n Add p q)
        = Some ((w, c), ConstantInt w' c')"
      by simp
    with h show "asr_keeps F b G i"
      by (intro kp) simp_all
  qed
qed

theorem add_zero_in_pass_witness:
  "algebraicIdentity_stregthReduction (ex_block Add (Argument 0) (ConstantInt 32 0)) 0
     = Some (True, [[BinaryOperator 1 Add (Argument 0) (ConstantInt 32 0),
                     OtherInst 2 1 [Argument 0]]])
   \<and> asr_rewrites (ex_block Add (Argument 0) (ConstantInt 32 0)) 0
       (ex_block Add (Argument 0) (ConstantInt 32 0)) 0 1 [] (Argument 0)
   \<and> algebraicIdentity_stregthReduction (ex_block Add (ConstantInt 32 5) (Argument 0)) 0
     = Some (True, ex_block Add (ConstantInt 32 5) (Argument 0))
   \<and> asr_keeps (ex_block Add (ConstantInt 32 5) (Argument 0)) 0
       (ex_block Add (ConstantInt 32 5) (Argument 0)) 0
   \<and> asr_keeps (ex_block Add (Argument 0) (Argument 1)) 0
       (ex_block Add (Argument 0) (Argument 1)) 0
   \<and> algebraicIdentity_stregthReduction
       [[BinaryOperator 1 Add (ConstantInt 32 0) (ConstantInt 32 7),
         BinaryOperator 2 Add (Inst 1) (ConstantInt 32 0),
         OtherInst 3 1 [Inst 2]]] 0
     = Some (True,
       [[BinaryOperator 1 Add (ConstantInt 32 0) (ConstantInt 32 7),
         BinaryOperator 2 Add (ConstantInt 32 7) (ConstantInt 32 0),
         OtherInst 3 1 [Inst 2]]])
   \<and> asr_rewrites
       [[BinaryOperator 1 Add (ConstantInt 32 0) (ConstantInt 32 7),
         BinaryOperator 2 Add (Inst 1) (ConstantInt 32 0),
         OtherInst 3 1 [Inst 2]]] 0
       [[BinaryOperator 1 Add (ConstantInt 32 0) (ConstantInt 32 7),
         BinaryOperator 2 Add (Inst 1) (ConstantInt 32 0),
         OtherInst 3 1 [Inst 2]]] 0 1 [] (ConstantInt 32 7)
   \<and> asr_keeps
       [[BinaryOperator 1 Add (ConstantInt 32 0) (ConstantInt 32 7),
         BinaryOperator 2 Add (Inst 1) (ConstantInt 32 0),
         OtherInst 3 1 [Inst 2]]] 0
       [[BinaryOperator 1 Add (ConstantInt 32 0) (ConstantInt 32 7),
         BinaryOperator 2 Add (ConstantInt 32 7) (ConstantInt 32 0),
         OtherInst 3 1 [Inst 2]]] 1"
proof -
  let ?A = "ex_block Add (Argument 0) (ConstantInt 32 0)"
  let ?B = "ex_block Add (ConstantInt 32 5) (Argument 0)"
  let ?C = "ex_block Add (Argument 0) (Argument 1)"
  let ?D = "[[BinaryOperator 1 Add (ConstantInt 32 0) (ConstantInt 32 7),
         BinaryOperator 2 Add (Inst 1) (ConstantInt 32 0),
         OtherInst 3 1 [Inst 2]]]"
  let ?D1 = "[[BinaryOperator 1 Add (ConstantInt 32 0) (ConstantInt 32 7),
         BinaryOperator 2 Add (ConstantInt 32 7) (ConstantInt 32 0),
         OtherInst 3 1 [Inst 2]]]"
  have r: "asr_reaches ?D 0 ?D1 1"
    using asr_reaches.step [OF asr_reaches.start, where b = 0 and F = ?D and G' = ?D1] by (simp add: eval_simps)
  have a: "asr_rewrites ?A 0 ?A 0 1 [] (Argument 0)"
    using add_zero_in_pass [OF _ asr_reaches.start, where b = 0 and F = ?A and n = 1
        and p = "Argument 0" and q = "ConstantInt 32 0" and w = 32 and x = "Argument 0"
        and c = 5 and w' = 32 and c' = 5]
    by (simp add: ex_block_def)
  have k1: "asr_keeps ?B 0 ?B 0"
    using add_zero_in_pass [OF _ asr_reaches.start, where b = 0 and F = ?B and n = 1
        and p = "ConstantInt 32 5" and q = "Argument 0" and w = 32 and x = "Argument 0"
        and c = 5 and w' = 32 and c' = 5]
    by (simp add: ex_block_def)
  have k2: "asr_keeps ?C 0 ?C 0"
    using add_zero_in_pass [OF _ asr_reaches.start, where b = 0 and F = ?C and n = 1
        and p = "Argument 0" and q = "Argument 1" and w = 32 and x = "Argument 0"
        and c = 5 and w' = 32 and c' = 5]
    by (simp add: ex_block_def)
  have d0: "asr_rewrites ?D 0 ?D 0 1 [] (ConstantInt 32 7)"
    using add_zero_in_pass [OF _ asr_reaches.start, where b = 0 and F = ?D and n = 1
        and p = "ConstantInt 32 0" and q = "ConstantInt 32 7" and w = 32 and x = "Argument 0"
        and c = 5 and w' = 32 and c' = 7]
    by simp
  have d1: "asr_keeps ?D 0 ?D1 1"
    using add_zero_in_pass [OF _ r, where n = 2
        and p = "ConstantInt 32 7" and q = "ConstantInt 32 0" and w = 32 and x = "Argument 0"
        and c = 7 and w' = 32 and c' = 0]
    by simp
  have "algebraicIdentity_stregthReduction ?A 0
     = Some (True, [[BinaryOperator 1 Add (Argument 0) (ConstantInt 32 0),
                     OtherInst 2 1 [Argument 0]]])"
    by (simp add: ex_block_def eval_simps)
  moreover have "algebraicIdentity_stregthReduction ?B 0 = Some (True, ?B)"
    by (simp add: ex_block_def eval_simps)
  moreover have "algebraicIdentity_stregthReduction ?D 0 = Some (True, ?D1)"
    by (simp add: eval_simps)
  ultimately show ?thesis
    using a k1 k2 d0 d1 by blast
qed


text \<open>
  C4. The loop of \<open>algebraicIdentity_stregthReduction\<close> over block \<open>b\<close> of \<open>F\<close> comes to a
  Mul \<open>n\<close> that is classified, at that moment, as (constant \<open>c\<close> of width \<open>w\<close>, variable
  \<open>x\<close>), with \<open>x\<close> not the Mul itself. If \<open>c = 1\<close> all uses go to \<open>x\<close>; else if
  \<open>c = 2 ^ k\<close> a left shift of \<open>x\<close> by \<open>k\<close> is inserted immediately after the Mul and takes
  all its uses; else if \<open>c - 1 = 2 ^ k\<close> a shift by \<open>k\<close> and then an add of the shift and
  \<open>x\<close> are inserted and the add takes all uses; else if \<open>c + 1 = 2 ^ k\<close> a shift by \<open>k\<close>
  and then a subtraction of \<open>x\<close> from the shift are inserted and the subtraction takes
  all uses; otherwise nothing changes. Each case carries the negation of the ones before
  it; \<open>c - 1\<close> and \<open>c + 1\<close> are the constant's own arithmetic, modulo \<open>2 ^ w\<close>. The new
  instructions have handles that no instruction of the function has. The loop then
  visits the inserted instructions in their turn (for \<open>9 * 0\<close> the inserted add of the
  shift and 0 hands its uses on to the shift). In the function that the pass returns a
  rewritten Mul has no use and is followed by the inserted instructions.
\<close>

theorem mul_in_pass:
  assumes b: "b < length F" and reach: "asr_reaches F b G i" and i: "i < length (G ! b)"
    and at: "G ! b ! i = BinaryOperator n Mul p q"
    and cls: "getConstantFromInstruction (BinaryOperator n Mul p q) = Some ((w, c), x)"
    and w: "0 < w" "w < 2 ^ 24" and c: "c < 2 ^ w"
    and x: "x \<noteq> Inst n"
  shows
    "(c = 1 \<longrightarrow> asr_rewrites F b G i n [] x)
     \<and> (c \<noteq> 1 \<and> c = 2 ^ k \<longrightarrow>
        asr_rewrites F b G i n
          [BinaryOperator (fresh G) Shl x (ConstantInt w k)] (Inst (fresh G)))
     \<and> (c \<noteq> 1 \<and> (\<forall>j. c \<noteq> 2 ^ j) \<and> (c + 2 ^ w - 1) mod 2 ^ w = 2 ^ k \<longrightarrow>
        asr_rewrites F b G i n
          [BinaryOperator (fresh G) Shl x (ConstantInt w k),
           BinaryOperator (Suc (fresh G)) Add (Inst (fresh G)) x] (Inst (Suc (fresh G))))
     \<and> (c \<noteq> 1 \<and> (\<forall>j. c \<noteq> 2 ^ j) \<and> (\<forall>j. (c + 2 ^ w - 1) mod 2 ^ w \<noteq> 2 ^ j)
          \<and> (c + 1) mod 2 ^ w = 2 ^ k \<longrightarrow>
        asr_rewrites F b G i n
          [BinaryOperator (fresh G) Shl x (ConstantInt w k),
           BinaryOperator (Suc (fresh G)) Sub (Inst (fresh G)) x] (Inst (Suc (fresh G))))
     \<and> (c \<noteq> 1 \<and> (\<forall>j. c \<noteq> 2 ^ j) \<and> (\<forall>j. (c + 2 ^ w - 1) mod 2 ^ w \<noteq> 2 ^ j)
          \<and> (\<forall>j. (c + 1) mod 2 ^ w \<noteq> 2 ^ j) \<longrightarrow>
        asr_keeps F b G i)
     \<and> fresh G \<notin> handle ` set (concat G)
     \<and> Suc (fresh G) \<notin> handle ` set (concat G)"
proof -
  have bG: "b < length G"
    using asr_reaches_length [OF reach] b by simp
  have n: "handle (G ! b ! i) = n"
    using at by simp
  have pass: "algebraicIdentity_stregthReduction F b
      = (case asr_loop G b i of None \<Rightarrow> None | Some R \<Rightarrow> Some (True, R))"
    by (simp add: algebraicIdentity_stregthReduction_def asr_reaches_result [OF reach])
  note body = asr_inst_mul [OF bG i at cls w c x, of k]
  note lift = asr_rewritesI [OF b reach i pass n]
  have "c = 1 \<longrightarrow> asr_rewrites F b G i n [] x"
  proof
    assume "c = 1"
    with body have "\<exists>G'. asr_inst G b i (G ! b ! i) = Some G' \<and>
        takes_all_uses G b i n [] x G'"
      by blast
    then show "asr_rewrites F b G i n [] x"
      by (rule lift) simp
  qed
  moreover have "c \<noteq> 1 \<and> c = 2 ^ k \<longrightarrow>
        asr_rewrites F b G i n
          [BinaryOperator (fresh G) Shl x (ConstantInt w k)] (Inst (fresh G))"
  proof
    assume "c \<noteq> 1 \<and> c = 2 ^ k"
    with body have "\<exists>G'. asr_inst G b i (G ! b ! i) = Some G' \<and>
        takes_all_uses G b i n [BinaryOperator (fresh G) Shl x (ConstantInt w k)] (Inst (fresh G)) G'"
      by blast
    then show "asr_rewrites F b G i n
          [BinaryOperator (fresh G) Shl x (ConstantInt w k)] (Inst (fresh G))"
      by (rule lift) simp
  qed
  moreover have "c \<noteq> 1 \<and> (\<forall>j. c \<noteq> 2 ^ j) \<and> (c + 2 ^ w - 1) mod 2 ^ w = 2 ^ k \<longrightarrow>
        asr_rewrites F b G i n
          [BinaryOperator (fresh G) Shl x (ConstantInt w k),
           BinaryOperator (Suc (fresh G)) Add (Inst (fresh G)) x] (Inst (Suc (fresh G)))"
  proof
    assume "c \<noteq> 1 \<and> (\<forall>j. c \<noteq> 2 ^ j) \<and> (c + 2 ^ w - 1) mod 2 ^ w = 2 ^ k"
    with body have "\<exists>G'. asr_inst G b i (G ! b ! i) = Some G' \<and>
        takes_all_uses G b i n [BinaryOperator (fresh G) Shl x (ConstantInt w k),
           BinaryOperator (Suc (fresh G)) Add (Inst (fresh G)) x] (Inst (Suc (fresh G))) G'"
      by blast
    then show "asr_rewrites F b G i n
          [BinaryOperator (fresh G) Shl x (ConstantInt w k),
           BinaryOperator (Suc (fresh G)) Add (Inst (fresh G)) x] (Inst (Suc (fresh G)))"
      by (rule lift) simp
  qed
  moreover have "c \<noteq> 1 \<and> (\<forall>j. c \<noteq> 2 ^ j) \<and> (\<forall>j. (c + 2 ^ w - 1) mod 2 ^ w \<noteq> 2 ^ j)
          \<and> (c + 1) mod 2 ^ w = 2 ^ k \<longrightarrow>
        asr_rewrites F b G i n
          [BinaryOperator (fresh G) Shl x (ConstantInt w k),
           BinaryOperator (Suc (fresh G)) Sub (Inst (fresh G)) x] (Inst (Suc (fresh G)))"
  proof
    assume "c \<noteq> 1 \<and> (\<forall>j. c \<noteq> 2 ^ j) \<and> (\<forall>j. (c + 2 ^ w - 1) mod 2 ^ w \<noteq> 2 ^ j)
          \<and> (c + 1) mod 2 ^ w = 2 ^ k"
    with body have "\<exists>G'. asr_inst G b i (G ! b ! i) = Some G' \<and>
        takes_all_uses G b i n [BinaryOperator (fresh G) Shl x (ConstantInt w k),
           BinaryOperator (Suc (fresh G)) Sub (Inst (fresh G)) x] (Inst (Suc (fresh G))) G'"
      by blast
    then show "asr_rewrites F b G i n
          [BinaryOperator (fresh G) Shl x (ConstantInt w k),
           BinaryOperator (Suc (fresh G)) Sub (Inst (fresh G)) x] (Inst (Suc (fresh G)))"
      by (rule lift) simp
  qed
  moreover have "c \<noteq> 1 \<and> (\<forall>j. c \<noteq> 2 ^ j) \<and> (\<forall>j. (c + 2 ^ w - 1) mod 2 ^ w \<noteq> 2 ^ j)
          \<and> (\<forall>j. (c + 1) mod 2 ^ w \<noteq> 2 ^ j) \<longrightarrow>
        asr_keeps F b G i"
    using body by (intro impI asr_keepsI [OF b reach i pass]) simp
  moreover have "fresh G \<notin> handle ` set (concat G)" "Suc (fresh G) \<notin> handle ` set (concat G)"
    using body by blast+
  ultimately show ?thesis
    by (intro conjI)
qed

theorem mul_in_pass_witness:
  "algebraicIdentity_stregthReduction (ex_block Mul (Argument 0) (ConstantInt 32 1)) 0
     = Some (True, [[BinaryOperator 1 Mul (Argument 0) (ConstantInt 32 1),
                     OtherInst 2 1 [Argument 0]]])
   \<and> asr_rewrites (ex_block Mul (Argument 0) (ConstantInt 32 1)) 0
       (ex_block Mul (Argument 0) (ConstantInt 32 1)) 0 1 [] (Argument 0)
   \<and> algebraicIdentity_stregthReduction (ex_block Mul (ConstantInt 32 8) (Argument 0)) 0
     = Some (True, [[BinaryOperator 1 Mul (ConstantInt 32 8) (Argument 0),
                     BinaryOperator 3 Shl (Argument 0) (ConstantInt 32 3),
                     OtherInst 2 1 [Inst 3]]])
   \<and> asr_rewrites (ex_block Mul (ConstantInt 32 8) (Argument 0)) 0
       (ex_block Mul (ConstantInt 32 8) (Argument 0)) 0 1
       [BinaryOperator 3 Shl (Argument 0) (ConstantInt 32 3)] (Inst 3)
   \<and> algebraicIdentity_stregthReduction (ex_block Mul (Argument 0) (ConstantInt 32 9)) 0
     = Some (True, [[BinaryOperator 1 Mul (Argument 0) (ConstantInt 32 9),
                     BinaryOperator 3 Shl (Argument 0) (ConstantInt 32 3),
                     BinaryOperator 4 Add (Inst 3) (Argument 0),
                     OtherInst 2 1 [Inst 4]]])
   \<and> asr_rewrites (ex_block Mul (Argument 0) (ConstantInt 32 9)) 0
       (ex_block Mul (Argument 0) (ConstantInt 32 9)) 0 1
       [BinaryOperator 3 Shl (Argument 0) (ConstantInt 32 3),
        BinaryOperator 4 Add (Inst 3) (Argument 0)] (Inst 4)
   \<and> algebraicIdentity_stregthReduction (ex_block Mul (Argument 0) (ConstantInt 32 7)) 0
     = Some (True, [[BinaryOperator 1 Mul (Argument 0) (ConstantInt 32 7),
                     BinaryOperator 3 Shl (Argument 0) (ConstantInt 32 3),
                     BinaryOperator 4 Sub (Inst 3) (Argument 0),
                     OtherInst 2 1 [Inst 4]]])
   \<and> asr_rewrites (ex_block Mul (Argument 0) (ConstantInt 32 7)) 0
       (ex_block Mul (Argument 0) (ConstantInt 32 7)) 0 1
       [BinaryOperator 3 Shl (Argument 0) (ConstantInt 32 3),
        BinaryOperator 4 Sub (Inst 3) (Argument 0)] (Inst 4)
   \<and> algebraicIdentity_stregthReduction (ex_block Mul (Argument 0) (ConstantInt 32 11)) 0
     = Some (True, ex_block Mul (Argument 0) (ConstantInt 32 11))
   \<and> asr_keeps (ex_block Mul (Argument 0) (ConstantInt 32 11)) 0
       (ex_block Mul (Argument 0) (ConstantInt 32 11)) 0
   \<and> algebraicIdentity_stregthReduction (ex_block Mul (ConstantInt 32 9) (ConstantInt 32 0)) 0
     = Some (True, [[BinaryOperator 1 Mul (ConstantInt 32 9) (ConstantInt 32 0),
                     BinaryOperator 3 Shl (ConstantInt 32 0) (ConstantInt 32 3),
                     BinaryOperator 4 Add (Inst 3) (ConstantInt 32 0),
                     OtherInst 2 1 [Inst 3]]])
   \<and> asr_rewrites (ex_block Mul (ConstantInt 32 9) (ConstantInt 32 0)) 0
       (ex_block Mul (ConstantInt 32 9) (ConstantInt 32 0)) 0 1
       [BinaryOperator 3 Shl (ConstantInt 32 0) (ConstantInt 32 3),
        BinaryOperator 4 Add (Inst 3) (ConstantInt 32 0)] (Inst 4)"
proof -
  have f: "fresh (ex_block Mul p q) = 3" for p q
    by (simp add: ex_block_def fresh_def)
  have np: "(\<forall>j. (2::nat) ^ j \<noteq> m) \<longleftrightarrow> \<not> pow2 m" for m
    using not_pow2_iff [of m] by metis
  have one: "asr_rewrites (ex_block Mul (Argument 0) (ConstantInt 32 1)) 0
       (ex_block Mul (Argument 0) (ConstantInt 32 1)) 0 1 [] (Argument 0)"
    using mul_in_pass [OF _ asr_reaches.start, where b = 0
        and F = "ex_block Mul (Argument 0) (ConstantInt 32 1)" and n = 1
        and p = "Argument 0" and q = "ConstantInt 32 1" and w = 32 and c = 1
        and x = "Argument 0" and k = 0]
    by (simp add: ex_block_def)
  have shl: "asr_rewrites (ex_block Mul (ConstantInt 32 8) (Argument 0)) 0
       (ex_block Mul (ConstantInt 32 8) (Argument 0)) 0 1
       [BinaryOperator 3 Shl (Argument 0) (ConstantInt 32 3)] (Inst 3)"
    using mul_in_pass [OF _ asr_reaches.start, where b = 0
        and F = "ex_block Mul (ConstantInt 32 8) (Argument 0)" and n = 1
        and p = "ConstantInt 32 8" and q = "Argument 0" and w = 32 and c = 8
        and x = "Argument 0" and k = 3]
    by (simp add: f) (simp add: ex_block_def)
  have add: "asr_rewrites (ex_block Mul (Argument 0) (ConstantInt 32 9)) 0
       (ex_block Mul (Argument 0) (ConstantInt 32 9)) 0 1
       [BinaryOperator 3 Shl (Argument 0) (ConstantInt 32 3),
        BinaryOperator 4 Add (Inst 3) (Argument 0)] (Inst 4)"
    using mul_in_pass [OF _ asr_reaches.start, where b = 0
        and F = "ex_block Mul (Argument 0) (ConstantInt 32 9)" and n = 1
        and p = "Argument 0" and q = "ConstantInt 32 9" and w = 32 and c = 9
        and x = "Argument 0" and k = 3]
    by (simp add: f np not_pow2_iff pow2.simps) (simp add: ex_block_def)
  have sub: "asr_rewrites (ex_block Mul (Argument 0) (ConstantInt 32 7)) 0
       (ex_block Mul (Argument 0) (ConstantInt 32 7)) 0 1
       [BinaryOperator 3 Shl (Argument 0) (ConstantInt 32 3),
        BinaryOperator 4 Sub (Inst 3) (Argument 0)] (Inst 4)"
    using mul_in_pass [OF _ asr_reaches.start, where b = 0
        and F = "ex_block Mul (Argument 0) (ConstantInt 32 7)" and n = 1
        and p = "Argument 0" and q = "ConstantInt 32 7" and w = 32 and c = 7
        and x = "Argument 0" and k = 3]
    by (simp add: f np not_pow2_iff pow2.simps) (simp add: ex_block_def)
  have none: "asr_keeps (ex_block Mul (Argument 0) (ConstantInt 32 11)) 0
       (ex_block Mul (Argument 0) (ConstantInt 32 11)) 0"
    using mul_in_pass [OF _ asr_reaches.start, where b = 0
        and F = "ex_block Mul (Argument 0) (ConstantInt 32 11)" and n = 1
        and p = "Argument 0" and q = "ConstantInt 32 11" and w = 32 and c = 11
        and x = "Argument 0" and k = 0]
    by (simp add: f np not_pow2_iff pow2.simps) (simp add: ex_block_def)
  have zero: "asr_rewrites (ex_block Mul (ConstantInt 32 9) (ConstantInt 32 0)) 0
       (ex_block Mul (ConstantInt 32 9) (ConstantInt 32 0)) 0 1
       [BinaryOperator 3 Shl (ConstantInt 32 0) (ConstantInt 32 3),
        BinaryOperator 4 Add (Inst 3) (ConstantInt 32 0)] (Inst 4)"
    using mul_in_pass [OF _ asr_reaches.start, where b = 0
        and F = "ex_block Mul (ConstantInt 32 9) (ConstantInt 32 0)" and n = 1
        and p = "ConstantInt 32 9" and q = "ConstantInt 32 0" and w = 32 and c = 9
        and x = "ConstantInt 32 0" and k = 3]
    by (simp add: f np not_pow2_iff pow2.simps) (simp add: ex_block_def)
  have "algebraicIdentity_stregthReduction (ex_block Mul (Argument 0) (ConstantInt 32 1)) 0
     = Some (True, [[BinaryOperator 1 Mul (Argument 0) (ConstantInt 32 1),
                     OtherInst 2 1 [Argument 0]]])"
    by (simp add: ex_block_def eval_simps)
  moreover have "algebraicIdentity_stregthReduction (ex_block Mul (ConstantInt 32 8) (Argument 0)) 0
     = Some (True, [[BinaryOperator 1 Mul (ConstantInt 32 8) (Argument 0),
                     BinaryOperator 3 Shl (Argument 0) (ConstantInt 32 3),
                     OtherInst 2 1 [Inst 3]]])"
    by (simp add: ex_block_def eval_simps)
  moreover have "algebraicIdentity_stregthReduction (ex_block Mul (Argument 0) (ConstantInt 32 9)) 0
     = Some (True, [[BinaryOperator 1 Mul (Argument 0) (ConstantInt 32 9),
                     BinaryOperator 3 Shl (Argument 0) (ConstantInt 32 3),
                     BinaryOperator 4 Add (Inst 3) (Argument 0),
                     OtherInst 2 1 [Inst 4]]])"
    by (simp add: ex_block_def eval_simps)
  moreover have "algebraicIdentity_stregthReduction (ex_block Mul (Argument 0) (ConstantInt 32 7)) 0
     = Some (True, [[BinaryOperator 1 Mul (Argument 0) (ConstantInt 32 7),
                     BinaryOperator 3 Shl (Argument 0) (ConstantInt 32 3),
                     BinaryOperator 4 Sub (Inst 3) (Argument 0),
                     OtherInst 2 1 [Inst 4]]])"
    by (simp add: ex_block_def eval_simps)
  moreover have "algebraicIdentity_stregthReduction (ex_block Mul (Argument 0) (ConstantInt 32 11)) 0
     = Some (True, ex_block Mul (Argument 0) (ConstantInt 32 11))"
    by (simp add: ex_block_def eval_simps)
  moreover have "algebraicIdentity_stregthReduction (ex_block Mul (ConstantInt 32 9) (ConstantInt 32 0)) 0
     = Some (True, [[BinaryOperator 1 Mul (ConstantInt 32 9) (ConstantInt 32 0),
                     BinaryOperator 3 Shl (ConstantInt 32 0) (ConstantInt 32 3),
                     BinaryOperator 4 Add (Inst 3) (ConstantInt 32 0),
                     OtherInst 2 1 [Inst 3]]])"
    by (simp add: ex_block_def eval_simps)
  ultimately show ?thesis
    using one shl add sub none zero by blast
qed

text \<open>
  C5. The loop of \<open>algebraicIdentity_stregthReduction\<close> over block \<open>b\<close> of \<open>F\<close> comes to an
  SDiv \<open>n\<close> with the operands \<open>p\<close> and \<open>q\<close> (the ones it has at that moment). If \<open>q\<close> is
  no integer constant the SDiv is not rewritten, whatever \<open>p\<close> is; if \<open>q\<close> is the
  constant 1 all uses go to the dividend \<open>p\<close>; if \<open>q\<close> is another power of two \<open>2 ^ k\<close>, a
  logical right shift of \<open>p\<close> by \<open>k\<close> is inserted immediately after the SDiv and takes
  all its uses; for any other constant nothing changes. In the function that the pass
  returns a rewritten SDiv has no use and is followed by the inserted shift.
\<close>

theorem sdiv_in_pass:
  assumes b: "b < length F" and reach: "asr_reaches F b G i" and i: "i < length (G ! b)"
    and at: "G ! b ! i = BinaryOperator n SDiv p q"
  shows
    "((\<forall>w' c'. q \<noteq> ConstantInt w' c') \<longrightarrow> asr_keeps F b G i)
     \<and> (q = ConstantInt w 1 \<and> p \<noteq> Inst n \<longrightarrow> asr_rewrites F b G i n [] p)
     \<and> (q = ConstantInt w c \<and> c \<noteq> 1 \<and> c = 2 ^ k \<and> c < 2 ^ w \<and> w < 2 ^ 24
          \<and> p \<noteq> Inst n \<longrightarrow>
        asr_rewrites F b G i n
          [BinaryOperator (fresh G) LShr p (ConstantInt w k)] (Inst (fresh G)))
     \<and> (q = ConstantInt w c \<and> c \<noteq> 1 \<and> (\<forall>j. c \<noteq> 2 ^ j) \<longrightarrow> asr_keeps F b G i)
     \<and> fresh G \<notin> handle ` set (concat G)"
proof -
  have bG: "b < length G"
    using asr_reaches_length [OF reach] b by simp
  have n: "handle (G ! b ! i) = n"
    using at by simp
  have pass: "algebraicIdentity_stregthReduction F b
      = (case asr_loop G b i of None \<Rightarrow> None | Some R \<Rightarrow> Some (True, R))"
    by (simp add: algebraicIdentity_stregthReduction_def asr_reaches_result [OF reach])
  note body = asr_inst_sdiv [OF bG i at, of w c k]
  note lift = asr_rewritesI [OF b reach i pass n]
  have "(\<forall>w' c'. q \<noteq> ConstantInt w' c') \<longrightarrow> asr_keeps F b G i"
    using body by (intro impI asr_keepsI [OF b reach i pass]) simp
  moreover have "q = ConstantInt w 1 \<and> p \<noteq> Inst n \<longrightarrow> asr_rewrites F b G i n [] p"
  proof
    assume "q = ConstantInt w 1 \<and> p \<noteq> Inst n"
    with body have "\<exists>G'. asr_inst G b i (G ! b ! i) = Some G' \<and>
        takes_all_uses G b i n [] p G'"
      by blast
    then show "asr_rewrites F b G i n [] p"
      by (rule lift) simp
  qed
  moreover have "q = ConstantInt w c \<and> c \<noteq> 1 \<and> c = 2 ^ k \<and> c < 2 ^ w \<and> w < 2 ^ 24
          \<and> p \<noteq> Inst n \<longrightarrow>
        asr_rewrites F b G i n
          [BinaryOperator (fresh G) LShr p (ConstantInt w k)] (Inst (fresh G))"
  proof
    assume "q = ConstantInt w c \<and> c \<noteq> 1 \<and> c = 2 ^ k \<and> c < 2 ^ w \<and> w < 2 ^ 24
          \<and> p \<noteq> Inst n"
    with body have "\<exists>G'. asr_inst G b i (G ! b ! i) = Some G' \<and>
        takes_all_uses G b i n [BinaryOperator (fresh G) LShr p (ConstantInt w k)] (Inst (fresh G)) G'"
      by blast
    then show "asr_rewrites F b G i n
          [BinaryOperator (fresh G) LShr p (ConstantInt w k)] (Inst (fresh G))"
      by (rule lift) simp
  qed
  moreover have "q = ConstantInt w c \<and> c \<noteq> 1 \<and> (\<forall>j. c \<noteq> 2 ^ j) \<longrightarrow> asr_keeps F b G i"
    using body by (intro impI asr_keepsI [OF b reach i pass]) simp
  moreover have "fresh G \<notin> handle ` set (concat G)"
    by (rule fresh_notin)
  ultimately show ?thesis
    by (intro conjI)
qed


theorem sdiv_in_pass_witness:
  "algebraicIdentity_stregthReduction (ex_block SDiv (ConstantInt 32 8) (Argument 0)) 0
     = Some (True, ex_block SDiv (ConstantInt 32 8) (Argument 0))
   \<and> asr_keeps (ex_block SDiv (ConstantInt 32 8) (Argument 0)) 0
       (ex_block SDiv (ConstantInt 32 8) (Argument 0)) 0
   \<and> algebraicIdentity_stregthReduction (ex_block SDiv (Argument 0) (ConstantInt 32 1)) 0
     = Some (True, [[BinaryOperator 1 SDiv (Argument 0) (ConstantInt 32 1),
                     OtherInst 2 1 [Argument 0]]])
   \<and> asr_rewrites (ex_block SDiv (Argument 0) (ConstantInt 32 1)) 0
       (ex_block SDiv (Argument 0) (ConstantInt 32 1)) 0 1 [] (Argument 0)
   \<and> algebraicIdentity_stregthReduction (ex_block SDiv (Argument 0) (ConstantInt 32 8)) 0
     = Some (True, [[BinaryOperator 1 SDiv (Argument 0) (ConstantInt 32 8),
                     BinaryOperator 3 LShr (Argument 0) (ConstantInt 32 3),
                     OtherInst 2 1 [Inst 3]]])
   \<and> asr_rewrites (ex_block SDiv (Argument 0) (ConstantInt 32 8)) 0
       (ex_block SDiv (Argument 0) (ConstantInt 32 8)) 0 1
       [BinaryOperator 3 LShr (Argument 0) (ConstantInt 32 3)] (Inst 3)
   \<and> algebraicIdentity_stregthReduction (ex_block SDiv (Argument 0) (ConstantInt 32 6)) 0
     = Some (True, ex_block SDiv (Argument 0) (ConstantInt 32 6))
   \<and> asr_keeps (ex_block SDiv (Argument 0) (ConstantInt 32 6)) 0
       (ex_block SDiv (Argument 0) (ConstantInt 32 6)) 0"
proof -
  have f: "fresh (ex_block SDiv p q) = 3" for p q
    by (simp add: ex_block_def fresh_def)
  have np: "(\<forall>j. (2::nat) ^ j \<noteq> m) \<longleftrightarrow> \<not> pow2 m" for m
    using not_pow2_iff [of m] by metis
  have var: "asr_keeps (ex_block SDiv (ConstantInt 32 8) (Argument 0)) 0
       (ex_block SDiv (ConstantInt 32 8) (Argument 0)) 0"
    using sdiv_in_pass [OF _ asr_reaches.start, where b = 0
        and F = "ex_block SDiv (ConstantInt 32 8) (Argument 0)" and n = 1
        and p = "ConstantInt 32 8" and q = "Argument 0" and w = 32 and c = 8 and k = 3]
    by (simp add: ex_block_def)
  have one: "asr_rewrites (ex_block SDiv (Argument 0) (ConstantInt 32 1)) 0
       (ex_block SDiv (Argument 0) (ConstantInt 32 1)) 0 1 [] (Argument 0)"
    using sdiv_in_pass [OF _ asr_reaches.start, where b = 0
        and F = "ex_block SDiv (Argument 0) (ConstantInt 32 1)" and n = 1
        and p = "Argument 0" and q = "ConstantInt 32 1" and w = 32 and c = 1 and k = 0]
    by (simp add: ex_block_def)
  have shr: "asr_rewrites (ex_block SDiv (Argument 0) (ConstantInt 32 8)) 0
       (ex_block SDiv (Argument 0) (ConstantInt 32 8)) 0 1
       [BinaryOperator 3 LShr (Argument 0) (ConstantInt 32 3)] (Inst 3)"
    using sdiv_in_pass [OF _ asr_reaches.start, where b = 0
        and F = "ex_block SDiv (Argument 0) (ConstantInt 32 8)" and n = 1
        and p = "Argument 0" and q = "ConstantInt 32 8" and w = 32 and c = 8 and k = 3]
    by (simp add: f) (simp add: ex_block_def)
  have none: "asr_keeps (ex_block SDiv (Argument 0) (ConstantInt 32 6)) 0
       (ex_block SDiv (Argument 0) (ConstantInt 32 6)) 0"
    using sdiv_in_pass [OF _ asr_reaches.start, where b = 0
        and F = "ex_block SDiv (Argument 0) (ConstantInt 32 6)" and n = 1
        and p = "Argument 0" and q = "ConstantInt 32 6" and w = 32 and c = 6 and k = 0]
    by (simp add: f np not_pow2_iff pow2.simps) (simp add: ex_block_def)
  have "algebraicIdentity_stregthReduction (ex_block SDiv (ConstantInt 32 8) (Argument 0)) 0
     = Some (True, ex_block SDiv (ConstantInt 32 8) (Argument 0))"
    by (simp add: ex_block_def eval_simps)
  moreover have "algebraicIdentity_stregthReduction (ex_block SDiv (Argument 0) (ConstantInt 32 1)) 0
     = Some (True, [[BinaryOperator 1 SDiv (Argument 0) (ConstantInt 32 1),
                     OtherInst 2 1 [Argument 0]]])"
    by (simp add: ex_block_def eval_simps)
  moreover have "algebraicIdentity_stregthReduction (ex_block SDiv (Argument 0) (ConstantInt 32 8)) 0
     = Some (True, [[BinaryOperator 1 SDiv (Argument 0) (ConstantInt 32 8),
                     BinaryOperator 3 LShr (Argument 0) (ConstantInt 32 3),
                     OtherInst 2 1 [Inst 3]]])"
    by (simp add: ex_block_def eval_simps)
  moreover have "algebraicIdentity_stregthReduction (ex_block SDiv (Argument 0) (ConstantInt 32 6)) 0
     = Some (True, ex_block SDiv (Argument 0) (ConstantInt 32 6))"
    by (simp add: ex_block_def eval_simps)
  ultimately show ?thesis
    using var one shr none by blast
qed



subsection \<open>The loop of multiInstructionOptimization\<close>

lemma mio_loop_step:
  "b < length G \<Longrightarrow> i < length (G ! b) \<Longrightarrow> mio_inst G (G ! b ! i) = Some G' \<Longrightarrow>
   mio_loop G b i = mio_loop G' b (Suc i)"
  by (subst mio_loop.simps) simp

lemma mio_reaches_result: "mio_reaches F b G i \<Longrightarrow> mio_loop G b i = mio_loop F b 0"
  by (induction rule: mio_reaches.induct) (simp_all add: mio_loop_step)

lemma redirect_handles: "map (map handle) (redirect m v F) = map (map handle) F"
  by (simp add: redirect_def comp_def)

lemma cancel_user_SomeD:
  "cancel_user C Param opp u F = Some F' \<Longrightarrow>
   F' = F \<or> (\<exists>m. Param \<noteq> Inst m \<and> F' = redirect m Param F)"
  by (auto simp: cancel_user_def split: option.splits instruction.splits if_splits prod.splits
      dest!: rauw_SomeD)

lemma cancel_users_keeps:
  "cancel_users C Param opp us F = Some F' \<Longrightarrow>
   map (map handle) F' = map (map handle) F
   \<and> (users F x = [] \<and> Param \<noteq> Inst x \<longrightarrow> users F' x = [])"
proof (induction us arbitrary: F)
  case Nil
  then show ?case by simp
next
  case (Cons u us)
  from Cons.prems obtain F1 where one: "cancel_user C Param opp u F = Some F1"
    and rest: "cancel_users C Param opp us F1 = Some F'"
    by (auto split: option.splits)
  from cancel_user_SomeD [OF one]
  have "map (map handle) F1 = map (map handle) F
      \<and> (users F x = [] \<and> Param \<noteq> Inst x \<longrightarrow> users F1 x = [])"
    by (auto simp: redirect_handles users_Nil_redirect)
  with Cons.IH [OF rest] show ?case by simp
qed

lemma mio_inst_keeps:
  assumes step: "mio_inst G I = Some G'" and I: "I \<in> set (concat G)"
  shows "map (map handle) G' = map (map handle) G \<and> (users G x = [] \<longrightarrow> users G' x = [])"
proof (cases I)
  case (OtherInst n opc ops)
  with step show ?thesis by simp
next
  case (BinaryOperator n opc p q)
  show ?thesis
  proof (cases "getConstantFromInstruction (BinaryOperator n opc p q)")
    case None
    with step BinaryOperator show ?thesis by (simp split: if_splits)
  next
    case (Some r)
    obtain C Param where r: "r = (C, Param)" by (cases r)
    note cls = Some [unfolded r]
    show ?thesis
    proof (cases "opc = Add \<or> opc = Sub")
      case False
      with step BinaryOperator show ?thesis by simp
    next
      case True
      with step BinaryOperator cls
      have c: "cancel_users C Param (if opc = Add then Sub else Add) (users G n) G = Some G'"
        by simp
      have "Param \<noteq> Inst x" if "users G x = []"
      proof -
        from that I have "Inst x \<notin> set (operands I)"
          unfolding users_Nil_iff by blast
        with classified_operands [OF cls] BinaryOperator show ?thesis by auto
      qed
      with cancel_users_keeps [OF c, of x] show ?thesis by blast
    qed
  qed
qed

lemma mio_reaches_handles: "mio_reaches F b G i \<Longrightarrow> map (map handle) G = map (map handle) F"
proof (induction rule: mio_reaches.induct)
  case start
  show ?case by simp
next
  case (step G i G')
  from mio_inst_keeps [OF step(4) nth_mem_concat [OF step(2,3)]] step.IH show ?case
    by simp
qed

lemma mio_loop_keeps:
  "mio_loop G b i = Some R \<Longrightarrow>
   map (map handle) R = map (map handle) G \<and> (users G x = [] \<longrightarrow> users R x = [])"
proof (induction G b i rule: mio_loop.induct)
  case (1 F b i)
  show ?case
  proof (cases "b < length F \<and> i < length (F ! b)")
    case True
    with "1.prems" obtain F1 where step: "mio_inst F (F ! b ! i) = Some F1"
      and rest: "mio_loop F1 b (Suc i) = Some R"
      by (subst (asm) mio_loop.simps) (auto split: option.splits)
    have "F ! b ! i \<in> set (concat F)"
      using True by (intro nth_mem_concat) simp_all
    from mio_inst_keeps [OF step this, of x] "1.IH" [OF True step rest] show ?thesis
      by simp
  next
    case False
    with "1.prems" show ?thesis
      by (subst (asm) mio_loop.simps) auto
  qed
qed


text \<open>
  The loop visits every instruction of the block handed to the pass.
\<close>

lemma mio_loop_visits:
  "mio_loop G b i = Some R \<Longrightarrow> mio_reaches F b G i \<Longrightarrow> b < length F \<Longrightarrow>
   i \<le> j \<Longrightarrow> j < length (F ! b) \<Longrightarrow>
   \<exists>G'. mio_reaches F b G' j \<and> j < length (G' ! b) \<and> handle (G' ! b ! j) = handle (F ! b ! j)"
proof (induction G b i rule: mio_loop.induct)
  case (1 G b i)
  have lay: "map (map handle) G = map (map handle) F"
    using "1.prems"(2) by (rule mio_reaches_handles)
  then have bG: "b < length G"
    using "1.prems"(3) by (metis length_map)
  have blk: "map handle (G ! b) = map handle (F ! b)"
    using arg_cong [OF lay, of "\<lambda>xs. xs ! b"] bG "1.prems"(3) by simp
  then have len: "length (G ! b) = length (F ! b)"
    by (metis length_map)
  show ?case
  proof (cases "j = i")
    case True
    have "map handle (G ! b) ! i = map handle (F ! b) ! i"
      by (simp only: blk)
    with True "1.prems"(2,5) len show ?thesis
      by (intro exI [of _ G]) simp
  next
    case False
    with "1.prems"(4) have le: "Suc i \<le> j" by simp
    with "1.prems"(5) len have i: "i < length (G ! b)" by simp
    with bG "1.prems"(1) obtain G1 where step: "mio_inst G (G ! b ! i) = Some G1"
      and rest: "mio_loop G1 b (Suc i) = Some R"
      by (subst (asm) mio_loop.simps) (auto split: option.splits)
    have reach1: "mio_reaches F b G1 (Suc i)"
      using "1.prems"(2) bG i step by (rule mio_reaches.step)
    from "1.IH" [OF _ step rest reach1 "1.prems"(3) le "1.prems"(5)] bG i
    show ?thesis by simp
  qed
qed

lemma mio_visits_all:
  assumes "b < length F" and "multiInstructionOptimization F b = Some (t, R)"
    and "j < length (F ! b)"
  shows "\<exists>G. mio_reaches F b G j \<and> j < length (G ! b) \<and> handle (G ! b ! j) = handle (F ! b ! j)"
proof -
  from assms(2) have "mio_loop F b 0 = Some R"
    by (auto simp: multiInstructionOptimization_def split: option.splits)
  from mio_loop_visits [OF this mio_reaches.start assms(1) _ assms(3)] show ?thesis
    by simp
qed

text \<open>
  C6. The loop of \<open>multiInstructionOptimization\<close> over block \<open>b\<close> of \<open>F\<close> comes to an Add
  or Sub \<open>n\<close> classified as (constant \<open>c\<close> of width \<open>w\<close>, variable \<open>Param\<close>), and \<open>U\<close> is
  at that moment a user of \<open>n\<close> with the opposite opcode that classifies with the same
  constant. Then the body of the loop returns a function with the same layout (no
  instruction is removed or added), in which \<open>n\<close> and \<open>U\<close> stand unchanged at their
  positions, \<open>U\<close> has no use, and every operand slot that held \<open>U\<close> holds \<open>Param\<close>, the
  variable operand of \<open>n\<close>; the loop goes on from there. The function that the pass
  returns has the layout of \<open>F\<close>, so the pass removes neither \<open>n\<close> nor \<open>U\<close>, and \<open>U\<close>
  has no use in it. The function is taken well formed: handles are distinct, \<open>Param\<close>
  is not the result of a user of \<open>n\<close> with the opposite opcode, and the constants have
  the width that typing gives them (LLVM asserts the last two).
\<close>

theorem cancellation_in_pass:
  assumes b: "b < length F" and reach: "mio_reaches F b G i" and i: "i < length (G ! b)"
    and at: "G ! b ! i = BinaryOperator n opc p q" and opc: "opc = Add \<or> opc = Sub"
    and cls: "getConstantFromInstruction (BinaryOperator n opc p q) = Some ((w, c), Param)"
    and opp: "opp = (if opc = Add then Sub else Add)"
    and U: "BinaryOperator u opp a d \<in> set (concat G)" and use: "Inst n \<in> {a, d}"
    and clsU: "getConstantFromInstruction (BinaryOperator u opp a d) = Some ((w, c), Param2)"
    and wf: "distinct (map handle (concat F))"
    and typed: "users_typed G n Param w"
    and acyclic: "\<forall>m a' d'. BinaryOperator m opp a' d' \<in> set (concat G) \<and> Inst n \<in> {a', d'}
        \<longrightarrow> Param \<noteq> Inst m"
  shows "\<exists>G'. mio_inst G (G ! b ! i) = Some G'
      \<and> mio_reaches F b G' (Suc i)
      \<and> map (map handle) G' = map (map handle) G
      \<and> G' ! b ! i = G ! b ! i
      \<and> (\<forall>b' j. b' < length G \<and> j < length (G ! b') \<and> G ! b' ! j = BinaryOperator u opp a d
            \<longrightarrow> G' ! b' ! j = BinaryOperator u opp a d)
      \<and> users G' u = []
      \<and> (\<forall>b' j k. b' < length G \<and> j < length (G ! b') \<and> k < length (operands (G ! b' ! j))
            \<and> operands (G ! b' ! j) ! k = Inst u
            \<longrightarrow> operands (G' ! b' ! j) ! k = Param)
      \<and> (case multiInstructionOptimization F b of
            None \<Rightarrow> mio_loop G' b (Suc i) = None
          | Some (t, R) \<Rightarrow>
              mio_loop G' b (Suc i) = Some R
              \<and> map (map handle) R = map (map handle) F
              \<and> users R u = [])"
proof -
  have hG: "map (map handle) G = map (map handle) F"
    using reach by (rule mio_reaches_handles)
  then have bG: "b < length G"
    using b by (metis length_map)
  have "map handle (concat G) = map handle (concat F)"
    using arg_cong [OF hG, of concat] by (simp add: map_concat)
  with wf have wfG: "distinct (map handle (concat G))"
    by simp
  from mio_inst_cancels [OF bG i at opc cls opp U use clsU wfG typed acyclic]
  obtain G' where body: "mio_inst G (G ! b ! i) = Some G'
      \<and> map (map handle) G' = map (map handle) G
      \<and> G' ! b ! i = G ! b ! i
      \<and> (\<forall>b' j. b' < length G \<and> j < length (G ! b') \<and> G ! b' ! j = BinaryOperator u opp a d
            \<longrightarrow> G' ! b' ! j = BinaryOperator u opp a d)
      \<and> users G' u = []
      \<and> (\<forall>b' j k. b' < length G \<and> j < length (G ! b') \<and> k < length (operands (G ! b' ! j))
            \<and> operands (G ! b' ! j) ! k = Inst u
            \<longrightarrow> operands (G' ! b' ! j) ! k = Param)" ..
  note step = body [THEN conjunct1]
  note lay = body [THEN conjunct2, THEN conjunct1]
  note same = body [THEN conjunct2, THEN conjunct2, THEN conjunct1]
  note user = body [THEN conjunct2, THEN conjunct2, THEN conjunct2, THEN conjunct1]
  note unused = body [THEN conjunct2, THEN conjunct2, THEN conjunct2, THEN conjunct2,
      THEN conjunct1]
  note slots = body [THEN conjunct2, THEN conjunct2, THEN conjunct2, THEN conjunct2,
      THEN conjunct2]
  have reach': "mio_reaches F b G' (Suc i)"
    using reach bG i step by (rule mio_reaches.step)
  have from_here: "multiInstructionOptimization F b
      = (case mio_loop G' b (Suc i) of None \<Rightarrow> None | Some R \<Rightarrow> Some (True, R))"
    by (simp add: multiInstructionOptimization_def mio_reaches_result [OF reach'])
  have res: "map (map handle) R = map (map handle) F \<and> users R u = []"
    if "mio_loop G' b (Suc i) = Some R" for R
    using mio_loop_keeps [OF that, of u] lay hG unused by simp
  have pass: "case multiInstructionOptimization F b of
            None \<Rightarrow> mio_loop G' b (Suc i) = None
          | Some (t, R) \<Rightarrow>
              mio_loop G' b (Suc i) = Some R
              \<and> map (map handle) R = map (map handle) F
              \<and> users R u = []"
  proof (cases "mio_loop G' b (Suc i)")
    case None
    then show ?thesis
      unfolding from_here by simp
  next
    case (Some R)
    with res [OF Some] show ?thesis
      unfolding from_here by simp
  qed
  show ?thesis
    by (intro exI [of _ G'] conjI step reach' lay same user unused slots pass)
qed



theorem cancellation_in_pass_witness:
  "multiInstructionOptimization
     [[BinaryOperator 1 Add (Argument 0) (ConstantInt 32 5),
       BinaryOperator 2 Sub (Inst 1) (ConstantInt 32 5),
       BinaryOperator 3 Add (Inst 2) (ConstantInt 32 5),
       OtherInst 4 1 [Inst 3]]] 0
   = Some (True,
     [[BinaryOperator 1 Add (Argument 0) (ConstantInt 32 5),
       BinaryOperator 2 Sub (Inst 1) (ConstantInt 32 5),
       BinaryOperator 3 Add (Argument 0) (ConstantInt 32 5),
       OtherInst 4 1 [Inst 3]]])
   \<and> mio_reaches
     [[BinaryOperator 1 Add (Argument 0) (ConstantInt 32 5),
       BinaryOperator 2 Sub (Inst 1) (ConstantInt 32 5),
       BinaryOperator 3 Add (Inst 2) (ConstantInt 32 5),
       OtherInst 4 1 [Inst 3]]] 0
     [[BinaryOperator 1 Add (Argument 0) (ConstantInt 32 5),
       BinaryOperator 2 Sub (Inst 1) (ConstantInt 32 5),
       BinaryOperator 3 Add (Argument 0) (ConstantInt 32 5),
       OtherInst 4 1 [Inst 3]]] 1
   \<and> users
     [[BinaryOperator 1 Add (Argument 0) (ConstantInt 32 5),
       BinaryOperator 2 Sub (Inst 1) (ConstantInt 32 5),
       BinaryOperator 3 Add (Inst 2) (ConstantInt 32 5),
       OtherInst 4 1 [Inst 3]]] 1 = [2]
   \<and> users
     [[BinaryOperator 1 Add (Argument 0) (ConstantInt 32 5),
       BinaryOperator 2 Sub (Inst 1) (ConstantInt 32 5),
       BinaryOperator 3 Add (Inst 2) (ConstantInt 32 5),
       OtherInst 4 1 [Inst 3]]] 2 = [3]
   \<and> users
     [[BinaryOperator 1 Add (Argument 0) (ConstantInt 32 5),
       BinaryOperator 2 Sub (Inst 1) (ConstantInt 32 5),
       BinaryOperator 3 Add (Argument 0) (ConstantInt 32 5),
       OtherInst 4 1 [Inst 3]]] 2 = []"
proof -
  let ?F = "[[BinaryOperator 1 Add (Argument 0) (ConstantInt 32 5),
       BinaryOperator 2 Sub (Inst 1) (ConstantInt 32 5),
       BinaryOperator 3 Add (Inst 2) (ConstantInt 32 5),
       OtherInst 4 1 [Inst 3]]]"
  let ?R = "[[BinaryOperator 1 Add (Argument 0) (ConstantInt 32 5),
       BinaryOperator 2 Sub (Inst 1) (ConstantInt 32 5),
       BinaryOperator 3 Add (Argument 0) (ConstantInt 32 5),
       OtherInst 4 1 [Inst 3]]]"
  have pass: "multiInstructionOptimization ?F 0 = Some (True, ?R)"
    by (simp add: eval_simps)
  have reach: "mio_reaches ?F 0 ?R 1"
    using cancellation_in_pass [OF _ mio_reaches.start, where b = 0 and F = ?F
        and n = 1 and opc = Add and p = "Argument 0" and q = "ConstantInt 32 5"
        and w = 32 and c = 5 and Param = "Argument 0" and opp = Sub and u = 2
        and a = "Inst 1" and d = "ConstantInt 32 5" and ?Param2.0 = "Inst 1"]
    by (simp add: eval_simps users_typed_def)
  have "users ?F 1 = [2]" "users ?F 2 = [3]" "users ?R 2 = []"
    by (simp_all add: users_def)
  with pass reach show ?thesis
    by simp
qed

end
